theory Spec2Isabelle
  imports Main "HOL-Library.Sublist"
begin

section \<open>Strings of the JavaScript runtime\<close>

text \<open>
  The command parser of \<^verbatim>\<open>server/utils/commandParser.js\<close> works on JavaScript strings.
  They are modelled as \<^typ>\<open>string\<close>: a list of code units, restricted to the units
  0..255 that \<^typ>\<open>char\<close> offers. Every function below that looks at a character looks at
  one code unit at a time, so nothing depends on the restriction but the range of inputs.
\<close>

text \<open>
  \<^verbatim>\<open>\s\<close> of a regular expression and the characters \<^verbatim>\<open>String.prototype.trim\<close> strips:
  WhiteSpace and LineTerminator of ECMAScript. Below U+0100 these are TAB, LF, VT, FF, CR,
  SPACE and NO-BREAK SPACE.
\<close>

definition whiteSpaceChars :: "char list" where
  "whiteSpaceChars = [CHR 0x09, CHR 0x0A, CHR 0x0B, CHR 0x0C, CHR 0x0D, CHR 0x20, CHR 0xA0]"

definition isWhiteSpace :: "char \<Rightarrow> bool" where
  "isWhiteSpace c = (c \<in> set whiteSpaceChars)"

text \<open>LineTerminator (what \<^verbatim>\<open>.\<close> does not match and \<^verbatim>\<open>^\<close> looks behind for): LF and CR below U+0100.\<close>

definition lineTerminatorChars :: "char list" where
  "lineTerminatorChars = [CHR 0x0A, CHR 0x0D]"

definition isLineTerminator :: "char \<Rightarrow> bool" where
  "isLineTerminator c = (c \<in> set lineTerminatorChars)"

definition trim :: "string \<Rightarrow> string" where
  "trim s = rev (dropWhile isWhiteSpace (rev (dropWhile isWhiteSpace s)))"

text \<open>\<^verbatim>\<open>Array.prototype.join(sep)\<close> on an array of strings.\<close>

fun join :: "string \<Rightarrow> string list \<Rightarrow> string" where
  "join sep [] = []"
| "join sep [x] = x"
| "join sep (x # y # ys) = x @ sep @ join sep (y # ys)"

text \<open>\<^verbatim>\<open>String.prototype.split(d)\<close> for a one-character separator.\<close>

fun split_on :: "char \<Rightarrow> string \<Rightarrow> string list" where
  "split_on d [] = [[]]"
| "split_on d (c # cs) =
     (if c = d then [] # split_on d cs
      else (case split_on d cs of [] \<Rightarrow> [[c]] | s # ss \<Rightarrow> (c # s) # ss))"

subsection \<open>Replacement strings\<close>

text \<open>
  \<^verbatim>\<open>String.prototype.replace\<close> with a replacement that is a string runs the abstract
  operation GetSubstitution on it: \<^verbatim>\<open>$$\<close> stands for a dollar sign, \<^verbatim>\<open>$&\<close> for the matched
  text, \<^verbatim>\<open>$`\<close> for the text before the match and \<^verbatim>\<open>$'\<close> for the text after it. None of
  the patterns of this program has a capture group, so \<^verbatim>\<open>$1\<close>..\<^verbatim>\<open>$99\<close> and \<^verbatim>\<open>$<\<close> are copied
  as they stand, like every other character.
\<close>

fun getSubstitution :: "string \<Rightarrow> string \<Rightarrow> string \<Rightarrow> string \<Rightarrow> string" where
  "getSubstitution matched pre after [] = []"
| "getSubstitution matched pre after [c] = [c]"
| "getSubstitution matched pre after (c # d # r) =
     (if c = CHR ''$'' \<and> d = CHR ''$'' then CHR ''$'' # getSubstitution matched pre after r
      else if c = CHR ''$'' \<and> d = CHR ''&'' then matched @ getSubstitution matched pre after r
      else if c = CHR ''$'' \<and> d = CHR 0x60 then pre @ getSubstitution matched pre after r
      else if c = CHR ''$'' \<and> d = CHR 0x27 then after @ getSubstitution matched pre after r
      else c # getSubstitution matched pre after (d # r))"

text \<open>
  \<^verbatim>\<open>s.replace(pattern, replacement)\<close> with a string pattern: the first occurrence only.
  \<open>pre\<close> is the text already passed over.
\<close>

fun replaceFirstFrom :: "string \<Rightarrow> string \<Rightarrow> string \<Rightarrow> string \<Rightarrow> string" where
  "replaceFirstFrom pat repl pre s =
     (if prefix pat s
      then getSubstitution pat pre (drop (length pat) s) repl @ drop (length pat) s
      else (case s of [] \<Rightarrow> [] | c # cs \<Rightarrow> c # replaceFirstFrom pat repl (pre @ [c]) cs))"

declare replaceFirstFrom.simps [simp del]

definition replaceFirst :: "string \<Rightarrow> string \<Rightarrow> string \<Rightarrow> string" where
  "replaceFirst pat repl s = replaceFirstFrom pat repl [] s"

text \<open>
  \<^verbatim>\<open>s.replace(/lit/g, replacement)\<close> for a regular expression that is one literal,
  non-empty text: every occurrence, leftmost first, none overlapping; each replacement is
  expanded against the original string.
\<close>

fun replaceAllFrom :: "string \<Rightarrow> string \<Rightarrow> string \<Rightarrow> string \<Rightarrow> string" where
  "replaceAllFrom pat repl pre [] = []"
| "replaceAllFrom pat repl pre (c # cs) =
     (case pat of
        [] \<Rightarrow> c # cs
      | p # ps \<Rightarrow>
          if prefix pat (c # cs)
          then getSubstitution pat pre (drop (length ps) cs) repl
                 @ replaceAllFrom pat repl (pre @ pat) (drop (length ps) cs)
          else c # replaceAllFrom pat repl (pre @ [c]) cs)"

definition replaceAll :: "string \<Rightarrow> string \<Rightarrow> string \<Rightarrow> string" where
  "replaceAll pat repl s = replaceAllFrom pat repl [] s"

section \<open>Node's path module (POSIX)\<close>

text \<open>
  \<^verbatim>\<open>path.resolve\<close>, \<^verbatim>\<open>path.relative\<close>, \<^verbatim>\<open>path.isAbsolute\<close> and \<^verbatim>\<open>path.basename\<close> belong to the
  runtime, not to the repository. They are modelled on path segments as Node documents them
  for POSIX: \<open>cwd\<close> stands for \<^verbatim>\<open>process.cwd()\<close>.
\<close>

text \<open>
  One step of \<^verbatim>\<open>normalizeString\<close>: the stack holds the segments kept so far, last one
  first. Empty segments and \<^verbatim>\<open>.\<close> are dropped; \<^verbatim>\<open>..\<close> removes the last segment kept, and
  is itself kept only above the start of a relative path.
\<close>

fun normalizeStep :: "bool \<Rightarrow> string list \<Rightarrow> string \<Rightarrow> string list" where
  "normalizeStep allowAboveRoot st seg =
     (if seg = [] \<or> seg = ''.'' then st
      else if seg = ''..'' then
        (case st of
           [] \<Rightarrow> if allowAboveRoot then [''..''] else []
         | t # ts \<Rightarrow> if t = ''..'' then (if allowAboveRoot then ''..'' # t # ts else t # ts) else ts)
      else seg # st)"

declare normalizeStep.simps [simp del]

definition normalizeSegments :: "bool \<Rightarrow> string list \<Rightarrow> string list" where
  "normalizeSegments allowAboveRoot segs = rev (foldl (normalizeStep allowAboveRoot) [] segs)"

text \<open>
  The loop of \<^verbatim>\<open>path.resolve\<close>: from the last argument to the first and then the working
  directory, each non-empty path is put in front until one is absolute.
\<close>

fun resolveLoop :: "string list \<Rightarrow> string \<times> bool \<Rightarrow> string \<times> bool" where
  "resolveLoop [] acc = acc"
| "resolveLoop (p # ps) (resolvedPath, resolvedAbsolute) =
     (if resolvedAbsolute then (resolvedPath, resolvedAbsolute)
      else if p = [] then resolveLoop ps (resolvedPath, resolvedAbsolute)
      else resolveLoop ps (p @ ''/'' @ resolvedPath, hd p = CHR ''/''))"

definition resolveSegments :: "string \<Rightarrow> string list \<Rightarrow> string list \<times> bool" where
  "resolveSegments cwd paths =
     (case resolveLoop (rev paths @ [cwd]) ([], False) of
        (resolvedPath, resolvedAbsolute) \<Rightarrow>
          (normalizeSegments (\<not> resolvedAbsolute) (split_on CHR ''/'' resolvedPath), resolvedAbsolute))"

definition path_resolve :: "string \<Rightarrow> string list \<Rightarrow> string" where
  "path_resolve cwd paths =
     (case resolveSegments cwd paths of
        (segs, resolvedAbsolute) \<Rightarrow>
          if resolvedAbsolute then CHR ''/'' # join ''/'' segs
          else if segs \<noteq> [] then join ''/'' segs else ''.'')"

text \<open>The segments of a resolved path: everything after the leading slash.\<close>

definition segmentsOf :: "string \<Rightarrow> string list" where
  "segmentsOf p = filter (\<lambda>s. s \<noteq> []) (split_on CHR ''/'' p)"

fun dropCommon :: "string list \<Rightarrow> string list \<Rightarrow> string list \<times> string list" where
  "dropCommon (x # xs) (y # ys) = (if x = y then dropCommon xs ys else (x # xs, y # ys))"
| "dropCommon xs ys = (xs, ys)"

text \<open>
  \<^verbatim>\<open>path.relative(from, to)\<close>: both are resolved; the segments they share at the front are
  dropped, every segment left of \<open>from\<close> becomes \<^verbatim>\<open>..\<close>, and what is left of \<open>to\<close> follows.
\<close>

definition path_relative :: "string \<Rightarrow> string \<Rightarrow> string \<Rightarrow> string" where
  "path_relative cwd from to =
     (if from = to then []
      else let from' = path_resolve cwd [from]; to' = path_resolve cwd [to] in
        if from' = to' then []
        else (case dropCommon (segmentsOf from') (segmentsOf to') of
               (fs, ts) \<Rightarrow> join ''/'' (map (\<lambda>_. ''..'') fs @ ts)))"

definition path_isAbsolute :: "string \<Rightarrow> bool" where
  "path_isAbsolute p = (p \<noteq> [] \<and> hd p = CHR ''/'')"

text \<open>\<^verbatim>\<open>path.basename\<close>: trailing slashes are skipped, the last segment is returned.\<close>

definition path_basename :: "string \<Rightarrow> string" where
  "path_basename p =
     rev (takeWhile (\<lambda>c. c \<noteq> CHR ''/'') (dropWhile (\<lambda>c. c = CHR ''/'') (rev p)))"

section \<open>The path guard\<close>

text \<open>\<^verbatim>\<open>String.prototype.startsWith\<close>.\<close>

definition startsWith :: "string \<Rightarrow> string \<Rightarrow> bool" where
  "startsWith s p = prefix p s"

text \<open>\<^verbatim>\<open>isPathSafe(filePath, basePath)\<close>, lines 80 to 89 of the source.\<close>

definition isPathSafe :: "string \<Rightarrow> string \<Rightarrow> string \<Rightarrow> bool" where
  "isPathSafe cwd filePath basePath =
     (let resolvedPath = path_resolve cwd [basePath, filePath];
          resolvedBase = path_resolve cwd [basePath];
          relative = path_relative cwd resolvedBase resolvedPath
      in relative \<noteq> [] \<and> \<not> startsWith relative ''..'' \<and> \<not> path_isAbsolute relative)"

section \<open>Argument substitution\<close>

text \<open>
  The second parameter of \<^verbatim>\<open>replaceArguments\<close>: an array of strings, one string, or
  nothing (\<^verbatim>\<open>undefined\<close>, \<^verbatim>\<open>null\<close>).
\<close>

datatype arguments = ArgsArray "string list" | ArgsString string | ArgsAbsent

text \<open>\<^verbatim>\<open>Array.isArray(args) ? args : (args ? [args] : [])\<close>: the empty string is falsy.\<close>

fun toArgsArray :: "arguments \<Rightarrow> string list" where
  "toArgsArray (ArgsArray xs) = xs"
| "toArgsArray (ArgsString s) = (if s \<noteq> [] then [s] else [])"
| "toArgsArray ArgsAbsent = []"

text \<open>\<^verbatim>\<open>argsArray[i - 1] || ''\<close>: a missing element and the empty string both give \<^verbatim>\<open>''\<close>.\<close>

definition positional :: "string list \<Rightarrow> nat \<Rightarrow> string" where
  "positional argsArray i = (if i - 1 < length argsArray then argsArray ! (i - 1) else [])"

text \<open>The source of \<^verbatim>\<open>new RegExp(`\\$${i}`, 'g')\<close> for \<open>i\<close> from 1 to 9: the literal \<^verbatim>\<open>$i\<close>.\<close>

definition digitChar :: "nat \<Rightarrow> char" where
  "digitChar i = ''0123456789'' ! i"

definition placeholder :: "nat \<Rightarrow> string" where
  "placeholder i = [CHR ''$'', digitChar i]"

text \<open>\<^verbatim>\<open>replaceArguments(content, args)\<close>, lines 52 to 72 of the source.\<close>

definition replaceArguments :: "string \<Rightarrow> arguments \<Rightarrow> string" where
  "replaceArguments content args =
     (if content = [] then content
      else
        let argsArray = toArgsArray args;
            allArgs = join '' '' argsArray;
            result = replaceAll ''$ARGUMENTS'' allArgs content
        in foldl (\<lambda>result i. replaceAll (placeholder i) (positional argsArray i) result)
             result [1..<10])"

section \<open>Output sanitizing\<close>

text \<open>
  \<^verbatim>\<open>[...output]\<close> walks a string by code points: a high surrogate followed by a low
  surrogate is one element of two code units, every other code unit is an element of its
  own. \<open>code\<close> reads a code unit as a number, so the definition covers the 16-bit units of
  the runtime as well as the characters of the model.
\<close>

fun spread :: "('c \<Rightarrow> nat) \<Rightarrow> 'c list \<Rightarrow> 'c list list" where
  "spread code [] = []"
| "spread code [c] = [[c]]"
| "spread code (c # d # r) =
     (if 0xD800 \<le> code c \<and> code c \<le> 0xDBFF \<and> 0xDC00 \<le> code d \<and> code d \<le> 0xDFFF
      then [c, d] # spread code r
      else [c] # spread code (d # r))"

text \<open>
  \<^verbatim>\<open>sanitizeOutput(output)\<close>, lines 229 to 242 of the source; \<^verbatim>\<open>ch.charCodeAt(0)\<close> is the
  first code unit of the element.
\<close>

definition sanitizeOutput :: "('c \<Rightarrow> nat) \<Rightarrow> 'c list \<Rightarrow> 'c list" where
  "sanitizeOutput code output =
     (if output = [] then []
      else concat (filter (\<lambda>ch. let c = code (hd ch)
                                in c = 9 \<or> c = 10 \<or> c = 13 \<or> (c \<ge> 32 \<and> c \<noteq> 127))
                     (spread code output)))"

section \<open>Regular expressions\<close>

text \<open>
  The regular expressions of the program are values of \<open>rx\<close>, matched by a backtracking
  matcher that follows the ECMAScript semantics: alternatives left to right, greedy
  repetition longest first, lazy repetition shortest first, and an iteration of a
  repetition that consumes nothing is given up. \<open>Group\<close> is the capture group 1 (no
  pattern has more than one whose text is read).
\<close>

datatype rx =
    Chars "char list"
  | NotChars "char list"
  | Eps
  | Seq rx rx
  | Alt rx rx
  | Star rx
  | LazyStar rx
  | Bol
  | Eol
  | Ahead rx
  | Group rx

text \<open>\<^verbatim>\<open>r+\<close> and \<^verbatim>\<open>r+?\<close>: one iteration, then the star.\<close>

definition Plus :: "rx \<Rightarrow> rx" where
  "Plus r = Seq r (Star r)"

definition LazyPlus :: "rx \<Rightarrow> rx" where
  "LazyPlus r = Seq r (LazyStar r)"

text \<open>A literal text, character by character.\<close>

fun Lit :: "string \<Rightarrow> rx" where
  "Lit [] = Eps"
| "Lit [c] = Chars [c]"
| "Lit (c # cs) = Seq (Chars [c]) (Lit cs)"

text \<open>
  What is left to match: the continuation of the ECMAScript matcher as a stack. \<open>StarK\<close>
  and \<open>LazyK\<close> stand after one iteration of a repetition and hold the length of the input
  that was left when the iteration began; \<open>GroupEnd\<close> closes the capture group and holds
  the input from where it opened.
\<close>

datatype item = R rx | StarK rx nat | LazyK rx nat | GroupEnd string

fun rx_weight :: "rx \<Rightarrow> nat" where
  "rx_weight (Seq a b) = Suc (rx_weight a + rx_weight b)"
| "rx_weight (Alt a b) = Suc (rx_weight a + rx_weight b)"
| "rx_weight (Star r) = Suc (Suc (rx_weight r))"
| "rx_weight (LazyStar r) = Suc (Suc (rx_weight r))"
| "rx_weight (Ahead r) = Suc (rx_weight r)"
| "rx_weight (Group r) = Suc (Suc (rx_weight r))"
| "rx_weight _ = 1"

fun item_weight :: "nat \<Rightarrow> item \<Rightarrow> nat" where
  "item_weight n (R r) = rx_weight r"
| "item_weight n (StarK r m) = (if n < m then Suc (rx_weight (Star r)) else 0)"
| "item_weight n (LazyK r m) = (if n < m then Suc (rx_weight (LazyStar r)) else 0)"
| "item_weight n (GroupEnd s) = 1"

text \<open>
  \<open>matchK multiline k prev s cap\<close>: match the stack \<open>k\<close> against the input \<open>s\<close>, whose
  previous character is \<open>prev\<close>; the result is the input left after the match and the
  text of the capture group.
\<close>

function matchK ::
  "bool \<Rightarrow> item list \<Rightarrow> char option \<Rightarrow> string \<Rightarrow> string option \<Rightarrow> (string \<times> string option) option"
where
  "matchK ml [] prev s cap = Some (s, cap)"
| "matchK ml (R (Chars cs) # k) prev s cap =
     (case s of
        [] \<Rightarrow> None
      | c # t \<Rightarrow> if c \<in> set cs then matchK ml k (Some c) t cap else None)"
| "matchK ml (R (NotChars cs) # k) prev s cap =
     (case s of
        [] \<Rightarrow> None
      | c # t \<Rightarrow> if c \<notin> set cs then matchK ml k (Some c) t cap else None)"
| "matchK ml (R Eps # k) prev s cap = matchK ml k prev s cap"
| "matchK ml (R (Seq a b) # k) prev s cap = matchK ml (R a # R b # k) prev s cap"
| "matchK ml (R (Alt a b) # k) prev s cap =
     (case matchK ml (R a # k) prev s cap of
        Some res \<Rightarrow> Some res
      | None \<Rightarrow> matchK ml (R b # k) prev s cap)"
| "matchK ml (R (Star r) # k) prev s cap =
     (case matchK ml (R r # StarK r (length s) # k) prev s cap of
        Some res \<Rightarrow> Some res
      | None \<Rightarrow> matchK ml k prev s cap)"
| "matchK ml (StarK r n # k) prev s cap =
     (if length s < n then matchK ml (R (Star r) # k) prev s cap else None)"
| "matchK ml (R (LazyStar r) # k) prev s cap =
     (case matchK ml k prev s cap of
        Some res \<Rightarrow> Some res
      | None \<Rightarrow> matchK ml (R r # LazyK r (length s) # k) prev s cap)"
| "matchK ml (LazyK r n # k) prev s cap =
     (if length s < n then matchK ml (R (LazyStar r) # k) prev s cap else None)"
| "matchK ml (R Bol # k) prev s cap =
     (case prev of
        None \<Rightarrow> matchK ml k prev s cap
      | Some p \<Rightarrow> if ml \<and> isLineTerminator p then matchK ml k prev s cap else None)"
| "matchK ml (R Eol # k) prev s cap =
     (case s of
        [] \<Rightarrow> matchK ml k prev s cap
      | c # t \<Rightarrow> if ml \<and> isLineTerminator c then matchK ml k prev s cap else None)"
| "matchK ml (R (Ahead r) # k) prev s cap =
     (case matchK ml [R r] prev s cap of
        Some (rest, cap') \<Rightarrow> matchK ml k prev s cap'
      | None \<Rightarrow> None)"
| "matchK ml (R (Group r) # k) prev s cap = matchK ml (R r # GroupEnd s # k) prev s cap"
| "matchK ml (GroupEnd s0 # k) prev s cap =
     matchK ml k prev s (Some (take (length s0 - length s) s0))"
  by pat_completeness auto
termination
  by (relation "inv_image (less_than <*lex*> less_than)
        (\<lambda>(ml, k, prev, s, cap). (length s, sum_list (map (item_weight (length s)) k)))")
     auto

text \<open>
  One result of \<^verbatim>\<open>matchAll\<close>: \<^verbatim>\<open>match.index\<close>, \<^verbatim>\<open>match[0]\<close> and \<^verbatim>\<open>match[1]\<close>
  (\<^verbatim>\<open>undefined\<close> when the group took no part).
\<close>

record rx_match =
  m_index :: nat
  m_full :: string
  m_group :: "string option"

text \<open>
  \<^verbatim>\<open>[...s.matchAll(re)]\<close> for a global expression: the leftmost match from the current
  position, then on from its end, one character further after an empty match. \<open>i\<close> is
  the position of \<open>s\<close> in the whole string and \<open>prev\<close> the character before it.
\<close>

function matchAllFrom :: "bool \<Rightarrow> rx \<Rightarrow> nat \<Rightarrow> char option \<Rightarrow> string \<Rightarrow> rx_match list" where
  "matchAllFrom ml re i prev s =
     (case matchK ml [R re] prev s None of
        None \<Rightarrow> (case s of [] \<Rightarrow> [] | c # t \<Rightarrow> matchAllFrom ml re (Suc i) (Some c) t)
      | Some (rest, cap) \<Rightarrow>
          let n = length s - length rest;
              m = \<lparr>m_index = i, m_full = take n s, m_group = cap\<rparr>
          in if 0 < n \<and> n \<le> length s
             then m # matchAllFrom ml re (i + n) (Some (s ! (n - 1))) (drop n s)
             else (case s of [] \<Rightarrow> [m] | c # t \<Rightarrow> m # matchAllFrom ml re (Suc i) (Some c) t))"
  by pat_completeness auto
termination
  by (relation "measure (\<lambda>(ml, re, i, prev, s). length s)") auto

declare matchAllFrom.simps [simp del]

definition matchAll :: "bool \<Rightarrow> rx \<Rightarrow> string \<Rightarrow> rx_match list" where
  "matchAll ml re s = matchAllFrom ml re 0 None s"

text \<open>\<^verbatim>\<open>re.test(s)\<close> for an expression without the global flag: a match from any position.\<close>

definition rx_test :: "bool \<Rightarrow> rx \<Rightarrow> string \<Rightarrow> bool" where
  "rx_test ml re s = (matchAll ml re s \<noteq> [])"

section \<open>The tokenizer of the shell-quote library\<close>

text \<open>
  \<^verbatim>\<open>validateCommand\<close> tokenizes with \<^verbatim>\<open>parse\<close> of the npm package shell-quote, which is not
  part of the repository. Its version 1.8 is modelled here as its source reads: a global
  regular expression cuts the line into chunks, and a scanner with the quoting rules of
  the shell turns each chunk into an entry. \<open>getVar\<close> stands for the lookup of a variable
  in the environment object; the program passes none, so the library looks names up in an
  empty object.
\<close>

datatype entry = Str string | Op string | Glob string | Comment string

definition SQ :: char where "SQ = CHR 0x27"
definition DQ :: char where "DQ = CHR 0x22"
definition BS :: char where "BS = CHR 0x5C"
definition DS :: char where "DS = CHR ''$''"

definition META :: string where
  "META = ''|&;()<> '' @ [CHR 0x09]"

definition CONTROL :: rx where
  "CONTROL =
     Alt (Lit ''||'') (Alt (Lit ''&&'') (Alt (Lit '';;'') (Alt (Lit ''|&'')
     (Alt (Lit ''<('') (Alt (Lit ''<<<'') (Alt (Lit ''>>'') (Alt (Lit ''>&'')
     (Alt (Lit ''<&'') (Chars ''&;()|<>'')))))))))"

text \<open>\<^verbatim>\<open>new RegExp('^' + CONTROL + '$')\<close>.\<close>

definition controlRE :: rx where
  "controlRE = Seq Bol (Seq CONTROL Eol)"

text \<open>\<^verbatim>\<open>(\\['"|&;()<> \t]|[^\s'"|&;()<> \t])+\<close>\<close>

definition BAREWORD :: rx where
  "BAREWORD =
     Plus (Alt (Seq (Chars [BS]) (Chars ([SQ, DQ] @ META)))
               (NotChars (whiteSpaceChars @ [SQ, DQ] @ META)))"

text \<open>
  The library's \<^verbatim>\<open>SINGLE_QUOTE\<close> is \<^verbatim>\<open>"((\\"|[^"])*?)"\<close> and its \<^verbatim>\<open>DOUBLE_QUOTE\<close> is
  \<^verbatim>\<open>'((\\'|[^'])*?)'\<close>; the chunker reads only the whole match, so their groups are not
  captured here.
\<close>

definition quoted :: "char \<Rightarrow> rx" where
  "quoted q = Seq (Chars [q]) (Seq (LazyStar (Alt (Seq (Chars [BS]) (Chars [q])) (NotChars [q]))) (Chars [q]))"

definition SINGLE_QUOTE :: rx where "SINGLE_QUOTE = quoted DQ"
definition DOUBLE_QUOTE :: rx where "DOUBLE_QUOTE = quoted SQ"

definition chunker :: rx where
  "chunker = Alt CONTROL (Plus (Alt BAREWORD (Alt SINGLE_QUOTE DOUBLE_QUOTE)))"

text \<open>\<^verbatim>\<open>\w\<close>, which \<^verbatim>\<open>[^\w\d_]\<close> excludes.\<close>

definition isWordChar :: "char \<Rightarrow> bool" where
  "isWordChar c =
     (c \<in> set ''abcdefghijklmnopqrstuvwxyzABCDEFGHIJKLMNOPQRSTUVWXYZ0123456789_'')"

text \<open>
  \<^verbatim>\<open>parseEnvVar\<close>, called at a dollar sign with \<open>rest\<close> the text of the chunk after it:
  the name of the variable, and the text at which the loop of the scanner goes on after
  its own \<^verbatim>\<open>i++\<close>; or the error the library throws.
\<close>

definition parseEnvVar :: "string \<Rightarrow> string + (string \<times> string)" where
  "parseEnvVar rest =
     (case rest of
        [] \<Rightarrow> Inr ([], [])
      | c # r \<Rightarrow>
          if c = CHR ''{'' then
            (if r \<noteq> [] \<and> hd r = CHR ''}'' then Inl ''Bad substitution: ${}''
             else if CHR ''}'' \<notin> set r then Inl (''Bad substitution: '' @ r)
             else Inr (takeWhile (\<lambda>x. x \<noteq> CHR ''}'') r,
                       drop 1 (dropWhile (\<lambda>x. x \<noteq> CHR ''}'') r)))
          else if c \<in> set ''*@#?$!_-'' then Inr ([c], drop 1 r)
          else Inr (takeWhile isWordChar rest, dropWhile isWordChar rest))"

lemma parseEnvVar_shorter: "parseEnvVar rest = Inr (v, rest') \<Longrightarrow> length rest' \<le> length rest"
proof -
  have drop_le: "length (dropWhile P xs) - n \<le> Suc (length xs)" for P n and xs :: string
    using length_dropWhile_le [of P xs] by arith
  have drop_le': "length (dropWhile P xs) \<le> Suc (length xs)" for P and xs :: string
    using length_dropWhile_le [of P xs] by arith
  assume "parseEnvVar rest = Inr (v, rest')"
  then show ?thesis
    by (auto simp: parseEnvVar_def drop_le drop_le' split: list.splits if_splits)
qed

text \<open>
  What the scanner makes of one chunk: an operator (the chunk itself), a string or a glob
  pattern, a comment (with the text before the hash sign, and the text of the chunk after
  it), or the error thrown.
\<close>

datatype scanned = SOp | SStr bool string | SComment string string | SThrow string

text \<open>
  The loop of the scanner over the chunk, with its variables \<^verbatim>\<open>quote\<close>, \<^verbatim>\<open>esc\<close>,
  \<^verbatim>\<open>isGlob\<close> and \<^verbatim>\<open>out\<close>; \<open>cs\<close> is the chunk from the index \<^verbatim>\<open>i\<close> on.
\<close>

function scanToken ::
  "(string \<Rightarrow> string) \<Rightarrow> char option \<Rightarrow> bool \<Rightarrow> bool \<Rightarrow> string \<Rightarrow> string \<Rightarrow> scanned"
where
  "scanToken getVar quote esc isGlob out [] = SStr isGlob out"
| "scanToken getVar quote esc isGlob out (c # r) =
     (let isGlob' = (isGlob \<or> (quote = None \<and> (c = CHR ''*'' \<or> c = CHR ''?''))) in
      if esc then scanToken getVar quote False isGlob' (out @ [c]) r
      else
        (case quote of
           Some q \<Rightarrow>
             if c = q then scanToken getVar None esc isGlob' out r
             else if q = SQ then scanToken getVar quote esc isGlob' (out @ [c]) r
             else if c = BS then
               (case r of
                  [] \<Rightarrow> scanToken getVar quote esc isGlob' (out @ [BS]) []
                | d # r' \<Rightarrow>
                    if d = DQ \<or> d = BS \<or> d = DS
                    then scanToken getVar quote esc isGlob' (out @ [d]) r'
                    else scanToken getVar quote esc isGlob' (out @ [BS, d]) r')
             else if c = DS then
               (case parseEnvVar r of
                  Inl e \<Rightarrow> SThrow e
                | Inr (v, r') \<Rightarrow> scanToken getVar quote esc isGlob' (out @ getVar v) r')
             else scanToken getVar quote esc isGlob' (out @ [c]) r
         | None \<Rightarrow>
             if c = DQ \<or> c = SQ then scanToken getVar (Some c) esc isGlob' out r
             else if rx_test False controlRE [c] then SOp
             else if c = CHR ''#'' then SComment out r
             else if c = BS then scanToken getVar quote True isGlob' out r
             else if c = DS then
               (case parseEnvVar r of
                  Inl e \<Rightarrow> SThrow e
                | Inr (v, r') \<Rightarrow> scanToken getVar quote esc isGlob' (out @ getVar v) r')
             else scanToken getVar quote esc isGlob' (out @ [c]) r))"
  by pat_completeness auto
termination
  by (relation "measure (\<lambda>(getVar, quote, esc, isGlob, out, cs). length cs)")
     (auto dest: parseEnvVar_shorter)

text \<open>
  The \<^verbatim>\<open>map\<close> over the chunks and the \<^verbatim>\<open>reduce\<close> that joins its results: once a comment
  has begun, the chunks that follow give nothing. \<open>whole\<close> is the line being parsed.
\<close>

fun parseChunks :: "(string \<Rightarrow> string) \<Rightarrow> string \<Rightarrow> bool \<Rightarrow> rx_match list \<Rightarrow> string + entry list" where
  "parseChunks getVar whole commented [] = Inr []"
| "parseChunks getVar whole commented (m # ms) =
     (let s = m_full m in
      if s = [] \<or> commented then parseChunks getVar whole commented ms
      else if rx_test False controlRE s then map_sum id ((#) (Op s)) (parseChunks getVar whole commented ms)
      else
        (case scanToken getVar None False False [] s of
           SThrow e \<Rightarrow> Inl e
         | SOp \<Rightarrow> map_sum id ((#) (Op s)) (parseChunks getVar whole commented ms)
         | SStr isGlob out \<Rightarrow>
             map_sum id ((#) (if isGlob then Glob out else Str out))
               (parseChunks getVar whole commented ms)
         | SComment out r \<Rightarrow>
             map_sum id
               ((@) ((if out \<noteq> [] then [Str out] else [])
                     @ [Comment (drop (m_index m + (length s - length r)) whole)]))
               (parseChunks getVar whole True ms)))"

definition shellQuoteParse :: "(string \<Rightarrow> string) \<Rightarrow> string \<Rightarrow> string + entry list" where
  "shellQuoteParse getVar s = parseChunks getVar s False (matchAll False chunker s)"

section \<open>Configuration\<close>

definition MAX_INCLUDE_DEPTH :: nat where
  "MAX_INCLUDE_DEPTH = 3"

definition BASH_TIMEOUT :: nat where
  "BASH_TIMEOUT = 30000"

definition BASH_COMMAND_ALLOWLIST :: "string list" where
  "BASH_COMMAND_ALLOWLIST =
     [''echo'', ''ls'', ''pwd'', ''date'', ''whoami'', ''git'', ''npm'', ''node'', ''cat'',
      ''grep'', ''find'', ''task-master'']"

section \<open>Errors\<close>

text \<open>
  Every error of the program is a JavaScript \<^verbatim>\<open>Error\<close> told apart by its message;
  \<open>message\<close> gives the text. \<open>SystemError\<close> is an error of the runtime that the program
  throws on as it is, with its \<^verbatim>\<open>code\<close>; \<open>TokenizerError\<close> is one thrown by the tokenizer.
\<close>

datatype thrown =
    DepthExceeded
  | InvalidFilePath string
  | FileNotFound string
  | SystemError string
  | TokenizerError string
  | CommandNotAllowed string string
  | CommandTimeout string
  | CommandFailed string string

fun message :: "thrown \<Rightarrow> string" where
  "message DepthExceeded = ''Maximum include depth (3) exceeded''"
| "message (InvalidFilePath filename) =
     ''Invalid file path (directory traversal detected): '' @ filename"
| "message (FileNotFound filename) = ''File not found: '' @ filename"
| "message (SystemError code) = code"
| "message (TokenizerError msg) = msg"
| "message (CommandNotAllowed commandString reason) =
     ''Command not allowed: '' @ commandString @ '' - '' @ reason"
| "message (CommandTimeout commandString) = ''Command timeout: '' @ commandString"
| "message (CommandFailed commandString msg) =
     ''Command failed: '' @ commandString @ '' - '' @ msg"

section \<open>Include resolution\<close>

text \<open>\<^verbatim>\<open>/(?:^|\s)@([^\s]+)/gm\<close>\<close>

definition includePattern :: rx where
  "includePattern =
     Seq (Alt Bol (Chars whiteSpaceChars))
         (Seq (Chars ''@'') (Group (Plus (NotChars whiteSpaceChars))))"

text \<open>
  The body of \<^verbatim>\<open>for (const match of matches)\<close>, lines 116 to 140 of the source, up to
  the text that takes the place of the match. \<open>readFile\<close> is
  \<^verbatim>\<open>fs.readFile(path, 'utf-8')\<close>: the content of the file, or the code of the error
  (\<^verbatim>\<open>ENOENT\<close> for a missing file). \<open>recur\<close> is the recursive call for the content of the
  included file, at the next depth.
\<close>

definition resolveMarker ::
  "string \<Rightarrow> (string \<Rightarrow> string + string) \<Rightarrow> (string \<Rightarrow> thrown + string) \<Rightarrow> string
     \<Rightarrow> rx_match \<Rightarrow> thrown + string"
where
  "resolveMarker cwd readFile recur basePath m =
     (let fullMatch = m_full m in
      case m_group m of
        None \<Rightarrow> Inl (SystemError ''ERR_INVALID_ARG_TYPE'')
      | Some filename \<Rightarrow>
          if \<not> isPathSafe cwd filename basePath then Inl (InvalidFilePath filename)
          else
            (case readFile (path_resolve cwd [basePath, filename]) of
               Inl code \<Rightarrow>
                 if code = ''ENOENT'' then Inl (FileNotFound filename) else Inl (SystemError code)
             | Inr fileContent \<Rightarrow>
                 (case recur fileContent of
                    Inl e \<Rightarrow> Inl e
                  | Inr processedContent \<Rightarrow>
                      Inr (if startsWith fullMatch '' '' then '' '' @ processedContent
                           else processedContent))))"

text \<open>
  The loop: an error ends it at once, as the \<^verbatim>\<open>throw\<close> does; \<open>result\<close> is the text as
  substituted so far, in which \<^verbatim>\<open>result.replace(fullMatch, ...)\<close> replaces the first
  occurrence of the match.
\<close>

fun includeLoop ::
  "string \<Rightarrow> (string \<Rightarrow> string + string) \<Rightarrow> (string \<Rightarrow> thrown + string) \<Rightarrow> string
     \<Rightarrow> rx_match list \<Rightarrow> string \<Rightarrow> thrown + string"
where
  "includeLoop cwd readFile recur basePath [] result = Inr result"
| "includeLoop cwd readFile recur basePath (m # ms) result =
     (case resolveMarker cwd readFile recur basePath m of
        Inl e \<Rightarrow> Inl e
      | Inr replacement \<Rightarrow>
          includeLoop cwd readFile recur basePath ms
            (replaceFirst (m_full m) replacement result))"

text \<open>\<^verbatim>\<open>processFileIncludes(content, basePath, depth)\<close>, lines 98 to 143 of the source.\<close>

function processFileIncludes ::
  "string \<Rightarrow> (string \<Rightarrow> string + string) \<Rightarrow> string \<Rightarrow> string \<Rightarrow> nat \<Rightarrow> thrown + string"
where
  "processFileIncludes cwd readFile content basePath depth =
     (if content = [] then Inr content
      else if depth \<ge> MAX_INCLUDE_DEPTH then Inl DepthExceeded
      else
        let matches = matchAll True includePattern content in
        if matches = [] then Inr content
        else includeLoop cwd readFile
               (\<lambda>fileContent. processFileIncludes cwd readFile fileContent basePath (depth + 1))
               basePath matches content)"
  by pat_completeness auto
termination
  by (relation "measure (\<lambda>(cwd, readFile, content, basePath, depth). MAX_INCLUDE_DEPTH - depth)")
     auto

declare processFileIncludes.simps [simp del]

section \<open>Command validation\<close>

text \<open>The object \<^verbatim>\<open>validateCommand\<close> returns.\<close>

record validation =
  allowed :: bool
  command :: string
  args :: "string list"
  error :: "string option"

text \<open>\<^verbatim>\<open>typeof token === 'object' && token.op\<close>: an operator or a glob pattern, whose \<^verbatim>\<open>op\<close> is \<^verbatim>\<open>'glob'\<close>.\<close>

fun hasOp :: "entry \<Rightarrow> bool" where
  "hasOp (Op s) = (s \<noteq> [])"
| "hasOp (Glob pattern) = True"
| "hasOp _ = False"

text \<open>\<^verbatim>\<open>parsed.filter(token => typeof token === 'string')\<close>\<close>

fun stringTokens :: "entry list \<Rightarrow> string list" where
  "stringTokens [] = []"
| "stringTokens (Str s # es) = s # stringTokens es"
| "stringTokens (e # es) = stringTokens es"

text \<open>\<^verbatim>\<open>/[;&|`$()<>{}[\]\\]/\<close>\<close>

definition dangerousPattern :: rx where
  "dangerousPattern = Chars ('';&|'' @ [CHR 0x60] @ ''$()<>{}[]'' @ [BS])"

text \<open>
  \<^verbatim>\<open>validateCommand(commandString)\<close>, lines 150 to 211 of the source.
  \<open>parseShellCommand\<close> is the tokenizer; what it throws, \<^verbatim>\<open>validateCommand\<close> throws.
\<close>

definition validateCommand :: "(string \<Rightarrow> string + entry list) \<Rightarrow> string \<Rightarrow> string + validation" where
  "validateCommand parseShellCommand commandString =
     (let trimmedCommand = trim commandString in
      if trimmedCommand = [] then
        Inr \<lparr>allowed = False, command = [], args = [], error = Some ''Empty command''\<rparr>
      else
        (case parseShellCommand trimmedCommand of
           Inl e \<Rightarrow> Inl e
         | Inr parsed \<Rightarrow>
             if list_ex hasOp parsed then
               Inr \<lparr>allowed = False, command = [], args = [],
                    error = Some ''Shell operators (&&, ||, |, ;, etc.) are not allowed''\<rparr>
             else
               (case stringTokens parsed of
                  [] \<Rightarrow> Inr \<lparr>allowed = False, command = [], args = [],
                             error = Some ''No valid command found''\<rparr>
                | cmd # rest \<Rightarrow>
                    let commandName = path_basename cmd in
                    if commandName \<notin> set BASH_COMMAND_ALLOWLIST then
                      Inr \<lparr>allowed = False, command = commandName, args = rest,
                           error = Some (''Command '' @ [SQ] @ commandName @ [SQ]
                                          @ '' is not in the allowlist'')\<rparr>
                    else
                      (case find (rx_test False dangerousPattern) rest of
                         Some arg \<Rightarrow>
                           Inr \<lparr>allowed = False, command = commandName, args = rest,
                                error = Some (''Argument contains dangerous characters: '' @ arg)\<rparr>
                       | None \<Rightarrow>
                           Inr \<lparr>allowed = True, command = commandName, args = rest,
                                error = None\<rparr>))))"

text \<open>\<^verbatim>\<open>isBashCommandAllowed(command)\<close>, lines 219 to 222 of the source.\<close>

definition isBashCommandAllowed :: "(string \<Rightarrow> string + entry list) \<Rightarrow> string \<Rightarrow> string + bool" where
  "isBashCommandAllowed parseShellCommand cmd =
     (case validateCommand parseShellCommand cmd of
        Inl e \<Rightarrow> Inl e
      | Inr result \<Rightarrow> Inr (allowed result))"

section \<open>Command execution\<close>

text \<open>
  \<^verbatim>\<open>execFileAsync(command, args, options)\<close> runs a program: it resolves with the two
  output streams, or rejects with an error whose \<^verbatim>\<open>killed\<close> is set when the runtime
  killed the child at the timeout, and whose \<^verbatim>\<open>message\<close> says what failed. The program
  changes the world it runs in, so the world \<open>'w\<close> is passed along.
\<close>

datatype exec_result = Resolved string string | Rejected bool string

record exec_options =
  opt_cwd :: string
  opt_timeout :: nat

text \<open>\<^verbatim>\<open>/(?:^|\n)!(.+?)(?=\n|$)/g\<close>\<close>

definition commandPattern :: rx where
  "commandPattern =
     Seq (Alt Bol (Chars [CHR 0x0A]))
         (Seq (Chars ''!'')
              (Seq (Group (LazyPlus (NotChars lineTerminatorChars)))
                   (Ahead (Alt (Chars [CHR 0x0A]) Eol))))"

text \<open>
  The body of \<^verbatim>\<open>for (const match of matches)\<close>, lines 265 to 309 of the source, up to
  the text that takes the place of the match. The search path built for the child belongs
  to \<open>exec\<close>.
\<close>

text \<open>\<^verbatim>\<open>match[1].trim()\<close>: the command line of a marker.\<close>

definition commandStringOf :: "rx_match \<Rightarrow> string" where
  "commandStringOf m = trim (case m_group m of Some g \<Rightarrow> g | None \<Rightarrow> [])"

definition runCommand ::
  "(string \<Rightarrow> string + entry list) \<Rightarrow> ('w \<Rightarrow> string \<Rightarrow> string list \<Rightarrow> exec_options \<Rightarrow> exec_result \<times> 'w)
     \<Rightarrow> exec_options \<Rightarrow> rx_match \<Rightarrow> 'w \<Rightarrow> (thrown + string) \<times> 'w"
where
  "runCommand parseShellCommand exec opts m w =
     (let fullMatch = m_full m;
          commandString = commandStringOf m
      in
      case validateCommand parseShellCommand commandString of
        Inl e \<Rightarrow> (Inl (TokenizerError e), w)
      | Inr v \<Rightarrow>
          if \<not> allowed v then
            (Inl (CommandNotAllowed commandString
                    (case error v of Some e \<Rightarrow> e | None \<Rightarrow> ''undefined'')), w)
          else
            (case exec w (command v) (args v) opts of
               (Rejected killed msg, w') \<Rightarrow>
                 (Inl (if killed then CommandTimeout commandString
                       else CommandFailed commandString msg), w')
             | (Resolved stdout stderr, w') \<Rightarrow>
                 let output = sanitizeOutput of_char (if stdout \<noteq> [] then stdout else stderr)
                 in (Inr (if startsWith fullMatch [CHR 0x0A] then CHR 0x0A # output else output),
                     w')))"

text \<open>The loop: the commands run one after the other, each in the world the last one left.\<close>

fun bashLoop ::
  "(string \<Rightarrow> string + entry list) \<Rightarrow> ('w \<Rightarrow> string \<Rightarrow> string list \<Rightarrow> exec_options \<Rightarrow> exec_result \<times> 'w)
     \<Rightarrow> exec_options \<Rightarrow> rx_match list \<Rightarrow> string \<Rightarrow> 'w \<Rightarrow> (thrown + string) \<times> 'w"
where
  "bashLoop parseShellCommand exec opts [] result w = (Inr result, w)"
| "bashLoop parseShellCommand exec opts (m # ms) result w =
     (case runCommand parseShellCommand exec opts m w of
        (Inl e, w') \<Rightarrow> (Inl e, w')
      | (Inr replacement, w') \<Rightarrow>
          bashLoop parseShellCommand exec opts ms
            (replaceFirst (m_full m) replacement result) w')"

text \<open>
  \<^verbatim>\<open>const { cwd = process.cwd(), timeout = BASH_TIMEOUT } = options\<close>: \<open>options\<close> holds
  what the caller gave, and \<open>processCwd\<close> is \<^verbatim>\<open>process.cwd()\<close>.
\<close>

definition bashOptions :: "string \<Rightarrow> string option \<times> nat option \<Rightarrow> exec_options" where
  "bashOptions processCwd options =
     \<lparr>opt_cwd = (case fst options of Some d \<Rightarrow> d | None \<Rightarrow> processCwd),
      opt_timeout = (case snd options of Some t \<Rightarrow> t | None \<Rightarrow> BASH_TIMEOUT)\<rparr>"

text \<open>\<^verbatim>\<open>processBashCommands(content, options)\<close>, lines 250 to 312 of the source.\<close>

definition processBashCommands ::
  "(string \<Rightarrow> string + entry list) \<Rightarrow> ('w \<Rightarrow> string \<Rightarrow> string list \<Rightarrow> exec_options \<Rightarrow> exec_result \<times> 'w)
     \<Rightarrow> string \<Rightarrow> string \<Rightarrow> string option \<times> nat option \<Rightarrow> 'w \<Rightarrow> (thrown + string) \<times> 'w"
where
  "processBashCommands parseShellCommand exec processCwd content options w =
     (if content = [] then (Inr content, w)
      else
        let opts = bashOptions processCwd options;
            matches = matchAll False commandPattern content
        in if matches = [] then (Inr content, w)
           else bashLoop parseShellCommand exec opts matches content w)"

section \<open>An example environment\<close>

text \<open>
  A world for the examples: it counts the programs that were run. \<^verbatim>\<open>echo\<close> prints its
  arguments, \<^verbatim>\<open>node\<close> runs until the timeout kills it, every other program exits with a
  failure.
\<close>

definition exampleExec :: "nat \<Rightarrow> string \<Rightarrow> string list \<Rightarrow> exec_options \<Rightarrow> exec_result \<times> nat" where
  "exampleExec w cmd arguments opts =
     (if cmd = ''echo'' then Resolved (join '' '' arguments @ [CHR 0x0A]) []
      else if cmd = ''node'' then Rejected True ''Command failed: node''
      else Rejected False (''Command failed: '' @ cmd), Suc w)"

section \<open>Notions for the properties of the path functions\<close>

text \<open>
  A segment that normalising keeps as it is; the text \<^verbatim>\<open>path.resolve\<close> joins for a base
  directory, and the segments it resolves to.
\<close>

definition plainSegment :: "string \<Rightarrow> bool" where
  "plainSegment seg = (seg \<noteq> [] \<and> seg \<noteq> ''.'' \<and> seg \<noteq> ''..'' \<and> CHR ''/'' \<notin> set seg)"

definition joinedBase :: "string \<Rightarrow> string \<Rightarrow> string" where
  "joinedBase cwd base =
     (if base = [] then cwd else if hd base = CHR ''/'' then base else cwd @ ''/'' @ base)"

definition baseSegments :: "string \<Rightarrow> string \<Rightarrow> string list" where
  "baseSegments cwd base = rev (foldl (normalizeStep False) [] (split_on CHR ''/'' (joinedBase cwd base)))"

section \<open>Argument substitution as the specification describes it\<close>

text \<open>
  The specification reads a body as text with placeholders in it, and substitutes every
  placeholder at once: \<^verbatim>\<open>$ARGUMENTS\<close> by the arguments joined with spaces, \<^verbatim>\<open>$1\<close> to
  \<^verbatim>\<open>$9\<close> by the argument of that position or by the empty string. \<open>substituteArguments\<close>
  is that reading, to be compared with \<open>replaceArguments\<close>; a body is given by its pieces,
  and a piece of text is well formed when it holds no dollar sign.
\<close>

datatype piece = Text string | AllArguments | Positional nat

fun pieceText :: "piece \<Rightarrow> string" where
  "pieceText (Text t) = t"
| "pieceText AllArguments = ''$ARGUMENTS''"
| "pieceText (Positional i) = placeholder i"

definition render :: "piece list \<Rightarrow> string" where
  "render ps = concat (map pieceText ps)"

fun wellFormed :: "piece \<Rightarrow> bool" where
  "wellFormed (Text t) = (CHR ''$'' \<notin> set t)"
| "wellFormed AllArguments = True"
| "wellFormed (Positional i) = (1 \<le> i \<and> i \<le> 9)"

fun substitute :: "string list \<Rightarrow> piece \<Rightarrow> string" where
  "substitute A (Text t) = t"
| "substitute A AllArguments = join '' '' A"
| "substitute A (Positional i) = positional A i"

definition substituteArguments :: "piece list \<Rightarrow> string list \<Rightarrow> string" where
  "substituteArguments ps A = concat (map (substitute A) ps)"

text \<open>Notions for the comparison: a piece that is a placeholder, a placeholder filled in,
  the character after the dollar sign and what follows it.\<close>

fun isPlaceholder :: "piece \<Rightarrow> bool" where
  "isPlaceholder (Text t) = False"
| "isPlaceholder _ = True"

definition fill :: "piece \<Rightarrow> string \<Rightarrow> piece \<Rightarrow> piece" where
  "fill q repl p = (if p = q then Text repl else p)"

fun mark :: "piece \<Rightarrow> char" where
  "mark (Positional i) = digitChar i"
| "mark _ = CHR ''A''"

fun tail :: "piece \<Rightarrow> string" where
  "tail AllArguments = ''RGUMENTS''"
| "tail _ = []"

section \<open>Example file systems\<close>

text \<open>
  Files under \<^verbatim>\<open>/base\<close> for the examples: \<^verbatim>\<open>B\<close> includes \<^verbatim>\<open>C\<close>, \<^verbatim>\<open>C\<close> includes \<^verbatim>\<open>D\<close>, and
  \<^verbatim>\<open>D\<close> includes \<^verbatim>\<open>E\<close> or holds plain text; \<^verbatim>\<open>P\<close> includes \<^verbatim>\<open>Q\<close>, which holds plain
  text. Every other file is missing.
\<close>

definition chain4Files :: "string \<Rightarrow> string + string" where
  "chain4Files p =
     (if p = ''/base/B'' then Inr ''@C''
      else if p = ''/base/C'' then Inr ''@D''
      else if p = ''/base/D'' then Inr ''@E''
      else if p = ''/base/E'' then Inr ''end''
      else if p = ''/base/P'' then Inr ''@Q''
      else if p = ''/base/Q'' then Inr ''done''
      else Inl ''ENOENT'')"


text \<open>One file, \<^verbatim>\<open>notes.txt\<close>, with the text \<^verbatim>\<open>done\<close>.\<close>

definition notesFiles :: "string \<Rightarrow> string + string" where
  "notesFiles p = (if p = ''/base/notes.txt'' then Inr ''done'' else Inl ''ENOENT'')"

text \<open>One file, \<^verbatim>\<open>locked\<close>, that the process may not read.\<close>

definition lockedFiles :: "string \<Rightarrow> string + string" where
  "lockedFiles p = (if p = ''/base/locked'' then Inl ''EACCES'' else Inl ''ENOENT'')"

section \<open>Properties of the path functions\<close>

lemma split_on_not_Nil [simp]: "split_on d s \<noteq> []"
  by (induction s) (auto split: list.splits)

lemma split_on_append: "split_on d (a @ d # b) = split_on d a @ split_on d b"
  by (induction a) (auto split: list.splits)

lemma split_on_snoc: "split_on d (a @ [d]) = split_on d a @ [[]]"
  using split_on_append [of d a "[]"] by simp

lemma split_on_no_sep: "seg \<in> set (split_on d s) \<Longrightarrow> d \<notin> set seg"
  by (induction s arbitrary: seg) (auto split: if_splits list.splits)

lemma split_on_none: "d \<notin> set x \<Longrightarrow> split_on d x = [x]"
  by (induction x) auto

lemma join_Cons: "ys \<noteq> [] \<Longrightarrow> join sep (x # ys) = x @ sep @ join sep ys"
  by (cases ys) auto

lemma join_split: "join [d] (split_on d s) = s"
proof (induction s)
  case Nil
  show ?case by simp
next
  case (Cons c cs)
  obtain s1 ss where sp: "split_on d cs = s1 # ss"
    by (cases "split_on d cs") auto
  show ?case
  proof (cases "c = d")
    case True
    then show ?thesis using Cons by (simp add: join_Cons)
  next
    case False
    then show ?thesis using Cons sp by (cases ss) auto
  qed
qed

lemma split_join:
  "segs \<noteq> [] \<Longrightarrow> \<forall>seg\<in>set segs. d \<notin> set seg \<Longrightarrow> split_on d (join [d] segs) = segs"
proof (induction segs)
  case Nil
  then show ?case by simp
next
  case (Cons x xs)
  show ?case
  proof (cases xs)
    case Nil
    then show ?thesis using Cons.prems by (simp add: split_on_none)
  next
    case (Cons y ys)
    then have "join [d] (x # xs) = x @ d # join [d] xs" by simp
    then show ?thesis
      using Cons.IH Cons.prems Cons by (simp add: split_on_append split_on_none)
  qed
qed

lemma foldl_step_plain:
  "\<forall>x\<in>set segs. plainSegment x \<Longrightarrow> foldl (normalizeStep a) st segs = rev segs @ st"
  by (induction segs arbitrary: st) (auto simp: plainSegment_def normalizeStep.simps)

lemma normalizeStep_plain:
  "\<forall>t\<in>set st. plainSegment t \<Longrightarrow> CHR ''/'' \<notin> set seg
   \<Longrightarrow> \<forall>t\<in>set (normalizeStep False st seg). plainSegment t"
  by (cases st) (auto simp: plainSegment_def normalizeStep.simps)

lemma normalize_plain:
  "\<forall>t\<in>set st. plainSegment t \<Longrightarrow> \<forall>x\<in>set segs. CHR ''/'' \<notin> set x
   \<Longrightarrow> \<forall>t\<in>set (foldl (normalizeStep False) st segs). plainSegment t"
proof (induction segs arbitrary: st)
  case Nil
  then show ?case by simp
next
  case (Cons s segs)
  have "\<forall>t\<in>set (normalizeStep False st s). plainSegment t"
    using Cons.prems by (intro normalizeStep_plain) auto
  then show ?case using Cons.IH [of "normalizeStep False st s"] Cons.prems by simp
qed


lemma normalizeStep_empty [simp]: "normalizeStep a st [] = st"
  by (simp add: normalizeStep.simps)

lemma resolveLoop_base:
  "path_isAbsolute cwd \<Longrightarrow> resolveLoop [base, cwd] ([], False) = (joinedBase cwd base @ ''/'', True)"
  by (simp add: path_isAbsolute_def joinedBase_def)

lemma resolveLoop_file:
  "path_isAbsolute cwd \<Longrightarrow> f \<noteq> [] \<Longrightarrow> hd f \<noteq> CHR ''/''
   \<Longrightarrow> resolveLoop [f, base, cwd] ([], False) = (joinedBase cwd base @ ''/'' @ f @ ''/'', True)"
  by (simp add: path_isAbsolute_def joinedBase_def)

lemma resolveSegments_base:
  assumes "path_isAbsolute cwd"
  shows "resolveSegments cwd [base] = (baseSegments cwd base, True)"
proof -
  have "rev [base] @ [cwd] = [base, cwd]" by simp
  then show ?thesis
    unfolding resolveSegments_def
    by (simp only: resolveLoop_base [OF assms] prod.case normalizeSegments_def baseSegments_def
          split_on_snoc foldl_append foldl.simps normalizeStep_empty simp_thms)
qed

lemma resolveSegments_file:
  assumes "path_isAbsolute cwd" "f \<noteq> []" "hd f \<noteq> CHR ''/''"
  shows "resolveSegments cwd [base, f] =
           (rev (foldl (normalizeStep False) (rev (baseSegments cwd base)) (split_on CHR ''/'' f)), True)"
proof -
  have sp: "split_on CHR ''/'' (joinedBase cwd base @ ''/'' @ f @ ''/'')
          = split_on CHR ''/'' (joinedBase cwd base) @ split_on CHR ''/'' f @ [[]]"
    using split_on_append [of "CHR ''/''" "joinedBase cwd base" "f @ ''/''"]
    by (simp add: split_on_snoc)
  have "rev [base, f] @ [cwd] = [f, base, cwd]" by simp
  then show ?thesis
    unfolding resolveSegments_def
    by (simp only: resolveLoop_file [OF assms] prod.case normalizeSegments_def baseSegments_def
          sp foldl_append foldl.simps normalizeStep_empty simp_thms rev_rev_ident)
qed

lemma baseSegments_plain: "\<forall>t\<in>set (baseSegments cwd base). plainSegment t"
  using normalize_plain [of "[]" "split_on CHR ''/'' (joinedBase cwd base)"]
  by (auto simp: baseSegments_def dest: split_on_no_sep)

lemma path_resolve_base:
  "path_isAbsolute cwd \<Longrightarrow> path_resolve cwd [base] = CHR ''/'' # join ''/'' (baseSegments cwd base)"
  by (simp add: path_resolve_def resolveSegments_base)

lemma path_resolve_file:
  "path_isAbsolute cwd \<Longrightarrow> f \<noteq> [] \<Longrightarrow> hd f \<noteq> CHR ''/''
   \<Longrightarrow> path_resolve cwd [base, f] =
         CHR ''/'' # join ''/'' (rev (foldl (normalizeStep False) (rev (baseSegments cwd base))
                                        (split_on CHR ''/'' f)))"
  by (simp add: path_resolve_def resolveSegments_file)

text \<open>A resolved path resolves to itself, and its segments are the ones it was built of.\<close>

lemma split_resolved:
  assumes "\<forall>t\<in>set segs. plainSegment t"
  shows "filter (\<lambda>s. s \<noteq> []) (split_on CHR ''/'' (CHR ''/'' # join ''/'' segs)) = segs"
proof (cases "segs = []")
  case True
  then show ?thesis by simp
next
  case False
  have "split_on CHR ''/'' (join ''/'' segs) = segs"
    using assms False by (intro split_join) (auto simp: plainSegment_def)
  moreover have "filter (\<lambda>s. s \<noteq> []) segs = segs"
    using assms by (auto simp: plainSegment_def intro: filter_True)
  ultimately show ?thesis by simp
qed

lemma segmentsOf_resolved:
  "\<forall>t\<in>set segs. plainSegment t \<Longrightarrow> segmentsOf (CHR ''/'' # join ''/'' segs) = segs"
  by (simp only: segmentsOf_def split_resolved)

lemma foldl_step_skip_empty:
  "foldl (normalizeStep a) st (filter (\<lambda>s. s \<noteq> []) segs) = foldl (normalizeStep a) st segs"
  by (induction segs arbitrary: st) auto

lemma resolveSegments_resolved:
  assumes "\<forall>t\<in>set segs. plainSegment t"
  shows "resolveSegments cwd [CHR ''/'' # join ''/'' segs] = (segs, True)"
proof -
  let ?p = "CHR ''/'' # join ''/'' segs"
  have loop: "resolveLoop (rev [?p] @ [cwd]) ([], False) = (?p @ ''/'', True)" by simp
  have "foldl (normalizeStep False) [] (split_on CHR ''/'' (?p @ ''/''))
          = foldl (normalizeStep False) [] (split_on CHR ''/'' ?p)"
    by (simp only: split_on_snoc foldl_append foldl.simps normalizeStep_empty)
  also have "\<dots> = foldl (normalizeStep False) [] (filter (\<lambda>s. s \<noteq> []) (split_on CHR ''/'' ?p))"
    by (simp only: foldl_step_skip_empty)
  also have "\<dots> = foldl (normalizeStep False) [] segs"
    using assms by (simp only: split_resolved)
  also have "\<dots> = rev segs"
    using assms by (simp only: foldl_step_plain append_Nil2)
  finally have "foldl (normalizeStep False) [] (split_on CHR ''/'' (?p @ ''/'')) = rev segs" .
  then show ?thesis
    unfolding resolveSegments_def
    by (simp only: loop prod.case normalizeSegments_def simp_thms rev_rev_ident)
qed

lemma path_resolve_resolved:
  "\<forall>t\<in>set segs. plainSegment t
   \<Longrightarrow> path_resolve cwd [CHR ''/'' # join ''/'' segs] = CHR ''/'' # join ''/'' segs"
  unfolding path_resolve_def by (simp only: resolveSegments_resolved prod.case if_True)

lemma resolved_inject:
  assumes "\<forall>t\<in>set xs. plainSegment t" "\<forall>t\<in>set ys. plainSegment t"
    and "CHR ''/'' # join ''/'' xs = CHR ''/'' # join ''/'' ys"
  shows "xs = ys"
proof -
  have "xs = segmentsOf (CHR ''/'' # join ''/'' xs)"
    by (rule sym) (rule segmentsOf_resolved [OF assms(1)])
  also have "\<dots> = segmentsOf (CHR ''/'' # join ''/'' ys)"
    by (simp only: assms(3))
  also have "\<dots> = ys"
    by (rule segmentsOf_resolved [OF assms(2)])
  finally show ?thesis .
qed

lemma dropCommon_append: "dropCommon (xs @ ys) (xs @ zs) = dropCommon ys zs"
  by (induction xs) auto

lemma path_relative_resolved:
  assumes "\<forall>t\<in>set xs. plainSegment t" "\<forall>t\<in>set ys. plainSegment t"
  shows "path_relative cwd (CHR ''/'' # join ''/'' xs) (CHR ''/'' # join ''/'' ys) =
           (if xs = ys then []
            else case dropCommon xs ys of (fs, ts) \<Rightarrow> join ''/'' (map (\<lambda>_. ''..'') fs @ ts))"
proof (cases "xs = ys")
  case True
  then show ?thesis by (simp add: path_relative_def)
next
  case False
  then have ne: "(CHR ''/'' # join ''/'' xs = CHR ''/'' # join ''/'' ys) = False"
    using resolved_inject [OF assms] by blast
  show ?thesis
    unfolding path_relative_def
    by (simp only: ne False if_False Let_def path_resolve_resolved [OF assms(1)]
          path_resolve_resolved [OF assms(2)] segmentsOf_resolved [OF assms(1)]
          segmentsOf_resolved [OF assms(2)])
qed

lemma plain_candidate1:
  assumes "\<forall>t\<in>set (split_on CHR ''/'' f). plainSegment t"
  shows "f \<noteq> []"
proof
  assume "f = []"
  then have "plainSegment []" using assms by simp
  then show False by (simp add: plainSegment_def)
qed

lemma plain_candidate2:
  assumes "\<forall>t\<in>set (split_on CHR ''/'' f). plainSegment t"
  shows "hd f \<noteq> CHR ''/''"
proof
  assume h: "hd f = CHR ''/''"
  have "f \<noteq> []" using assms by (rule plain_candidate1)
  then obtain r where "f = CHR ''/'' # r" using h by (cases f) auto
  then have "[] \<in> set (split_on CHR ''/'' f)" by simp
  then have "plainSegment []" using assms by blast
  then show False by (simp add: plainSegment_def)
qed

lemma path_resolve_inside:
  assumes "path_isAbsolute cwd" "\<forall>t\<in>set (split_on CHR ''/'' f). plainSegment t"
  shows "path_resolve cwd [base, f] =
           CHR ''/'' # join ''/'' (baseSegments cwd base @ split_on CHR ''/'' f)"
proof -
  have "f \<noteq> []" "hd f \<noteq> CHR ''/''"
    using assms(2) by (rule plain_candidate1, rule plain_candidate2)
  then have "path_resolve cwd [base, f] =
         CHR ''/'' # join ''/'' (rev (foldl (normalizeStep False) (rev (baseSegments cwd base))
                                        (split_on CHR ''/'' f)))"
    using assms(1) by (rule_tac path_resolve_file)
  also have "foldl (normalizeStep False) (rev (baseSegments cwd base)) (split_on CHR ''/'' f)
               = rev (split_on CHR ''/'' f) @ rev (baseSegments cwd base)"
    using assms(2) by (rule foldl_step_plain)
  finally show ?thesis by (simp only: rev_append rev_rev_ident)
qed

lemma path_relative_inside:
  assumes "path_isAbsolute cwd" "\<forall>t\<in>set (split_on CHR ''/'' f). plainSegment t"
  shows "path_relative cwd (path_resolve cwd [base]) (path_resolve cwd [base, f]) = f"
proof -
  let ?B = "baseSegments cwd base" and ?F = "split_on CHR ''/'' f"
  have plain: "\<forall>t\<in>set ?B. plainSegment t" "\<forall>t\<in>set (?B @ ?F). plainSegment t"
    using baseSegments_plain [of cwd base] assms(2) by auto
  have ne: "?B \<noteq> ?B @ ?F" by simp
  have dc: "dropCommon ?B (?B @ ?F) = ([], ?F)"
    using dropCommon_append [of ?B "[]" ?F] by simp
  have "path_relative cwd (CHR ''/'' # join ''/'' ?B) (CHR ''/'' # join ''/'' (?B @ ?F))
          = join ''/'' ?F"
    by (simp only: path_relative_resolved [OF plain] ne if_False dc prod.case list.map append_Nil)
  then show ?thesis
    by (simp only: path_resolve_base [OF assms(1)] path_resolve_inside [OF assms] join_split)
qed

lemma isPathSafe_inside:
  assumes "path_isAbsolute cwd" "\<forall>t\<in>set (split_on CHR ''/'' f). plainSegment t"
  shows "isPathSafe cwd f base \<longleftrightarrow> \<not> prefix ''..'' f"
proof -
  have "f \<noteq> []" "hd f \<noteq> CHR ''/''"
    using assms(2) by (rule plain_candidate1, rule plain_candidate2)
  then show ?thesis
    unfolding isPathSafe_def Let_def path_relative_inside [OF assms] startsWith_def
      path_isAbsolute_def
    by simp
qed

lemma normalizeStep_dot [simp]: "normalizeStep a st ''.'' = st"
  by (simp add: normalizeStep.simps)

lemma isPathSafe_dot:
  assumes "path_isAbsolute cwd"
  shows "\<not> isPathSafe cwd ''.'' base"
proof -
  have "path_resolve cwd [base, ''.''] = path_resolve cwd [base]"
    using assms by (simp add: path_resolve_file path_resolve_base)
  then show ?thesis
    by (simp add: isPathSafe_def Let_def path_relative_def)
qed

lemma isPathSafe_parent:
  assumes "path_isAbsolute cwd" "path_resolve cwd [base] \<noteq> ''/''"
  shows "\<not> isPathSafe cwd ''../x'' base"
proof -
  let ?B = "baseSegments cwd base"
  have plainB: "\<forall>t\<in>set ?B. plainSegment t" by (rule baseSegments_plain)
  have "?B \<noteq> []"
    using assms by (auto simp: path_resolve_base)
  then obtain B0 t where B: "?B = B0 @ [t]"
    by (metis rev_exhaust)
  have t: "t \<noteq> ''..''" using plainB B by (auto simp: plainSegment_def)
  have plainT: "\<forall>t\<in>set (B0 @ [''x'']). plainSegment t"
    using plainB B by (auto simp: plainSegment_def)
  have "foldl (normalizeStep False) (rev ?B) (split_on CHR ''/'' ''../x'') = ''x'' # rev B0"
    using t by (simp add: B normalizeStep.simps)
  then have to: "path_resolve cwd [base, ''../x''] = CHR ''/'' # join ''/'' (B0 @ [''x''])"
    using assms(1) by (simp add: path_resolve_file del: split_on.simps)
  have rel: "path_relative cwd (path_resolve cwd [base]) (path_resolve cwd [base, ''../x''])
               = (if t = ''x'' then [] else ''../x'')"
    using path_relative_resolved [OF plainB plainT, of cwd]
    by (simp add: path_resolve_base [OF assms(1)] to B dropCommon_append)
  show ?thesis
    by (simp add: isPathSafe_def Let_def rel startsWith_def)
qed

section \<open>Properties of the path guard\<close>

lemma join_snoc: "xs \<noteq> [] \<Longrightarrow> join sep (xs @ [x]) = join sep xs @ sep @ x"
  by (induction sep xs rule: join.induct) auto

lemma path_resolve_under_base:
  assumes "path_isAbsolute cwd" "\<forall>t\<in>set (split_on CHR ''/'' f). plainSegment t"
    "CHR ''/'' \<notin> set f"
  shows "path_resolve cwd [base, f] =
           (if path_resolve cwd [base] = ''/'' then CHR ''/'' # f
            else path_resolve cwd [base] @ ''/'' @ f)"
proof -
  let ?B = "baseSegments cwd base"
  have sp: "split_on CHR ''/'' f = [f]" using assms(3) by (rule split_on_none)
  have to: "path_resolve cwd [base, f] = CHR ''/'' # join ''/'' (?B @ [f])"
    using path_resolve_inside [OF assms(1,2)] by (simp only: sp)
  have src: "path_resolve cwd [base] = CHR ''/'' # join ''/'' ?B"
    using assms(1) by (rule path_resolve_base)
  show ?thesis
  proof (cases "?B = []")
    case True
    then show ?thesis by (simp add: to src)
  next
    case False
    have "join ''/'' ?B \<noteq> []"
    proof
      assume "join ''/'' ?B = []"
      then have "segmentsOf (CHR ''/'' # join ''/'' ?B) = []" by (simp add: segmentsOf_def)
      then show False using False segmentsOf_resolved [OF baseSegments_plain, of cwd base] by simp
    qed
    then show ?thesis using False by (simp add: to src join_snoc)
  qed
qed

text \<open>
  Claim C4, as amended. With an absolute working directory and for every base directory:
  the guard returns false for \<^verbatim>\<open>../x\<close> when the base does not resolve to the root (at
  the root \<^verbatim>\<open>/x\<close> lies inside the base, and the guard returns true), true for \<^verbatim>\<open>a/b\<close>
  and false for \<^verbatim>\<open>.\<close>; and a candidate is unsafe exactly when the path from the resolved
  base to the resolved candidate is empty, begins with the two characters \<^verbatim>\<open>..\<close>, or is
  absolute.
\<close>

theorem isPathSafe_guard:
  assumes "path_isAbsolute cwd"
  shows "(path_resolve cwd [base] \<noteq> ''/'' \<longrightarrow> \<not> isPathSafe cwd ''../x'' base)
       \<and> isPathSafe cwd ''a/b'' base
       \<and> \<not> isPathSafe cwd ''.'' base
       \<and> (\<not> isPathSafe cwd f base \<longleftrightarrow>
            (let rel = path_relative cwd (path_resolve cwd [base]) (path_resolve cwd [base, f])
             in rel = [] \<or> startsWith rel ''..'' \<or> path_isAbsolute rel))"
proof -
  have ab: "\<forall>t\<in>set (split_on CHR ''/'' ''a/b''). plainSegment t"
    by (simp add: plainSegment_def)
  have "isPathSafe cwd ''a/b'' base"
    using isPathSafe_inside [OF assms ab, of base] by simp
  moreover have "\<not> isPathSafe cwd f base \<longleftrightarrow>
            (let rel = path_relative cwd (path_resolve cwd [base]) (path_resolve cwd [base, f])
             in rel = [] \<or> startsWith rel ''..'' \<or> path_isAbsolute rel)"
    unfolding isPathSafe_def Let_def by blast
  ultimately show ?thesis
    using isPathSafe_parent [OF assms, of base] isPathSafe_dot [OF assms, of base] by blast
qed

theorem isPathSafe_guard_witness:
  "path_isAbsolute ''/srv'' \<and> path_resolve ''/srv'' [''base''] \<noteq> ''/''
   \<and> \<not> isPathSafe ''/srv'' ''../x'' ''base''
   \<and> isPathSafe ''/srv'' ''a/b'' ''base''
   \<and> \<not> isPathSafe ''/srv'' ''.'' ''base''"
proof -
  have a: "path_isAbsolute ''/srv''" by (simp add: path_isAbsolute_def)
  have r: "path_resolve ''/srv'' [''base''] \<noteq> ''/''" by code_simp
  show ?thesis using a r isPathSafe_guard [OF a, of "''base''"] by blast
qed

text \<open>
  The claim as it was stated fails twice: with the root as base \<^verbatim>\<open>../x\<close> is accepted, and
  \<^verbatim>\<open>..notes\<close> is rejected although the relative path \<^verbatim>\<open>..notes\<close> is not empty, does not
  start with a parent-directory segment and is not absolute.
\<close>

theorem isPathSafe_guard_counterexample:
  "isPathSafe ''/srv'' ''../x'' ''/''
   \<and> \<not> isPathSafe ''/srv'' ''..notes'' ''/base''
   \<and> path_relative ''/srv'' (path_resolve ''/srv'' [''/base''])
        (path_resolve ''/srv'' [''/base'', ''..notes'']) = ''..notes''
   \<and> hd (split_on CHR ''/'' ''..notes'') \<noteq> ''..''
   \<and> \<not> path_isAbsolute ''..notes''"
  by code_simp

text \<open>
  Claim C10. The guard returns false for every candidate whose path relative to the base
  begins with the two characters \<^verbatim>\<open>..\<close>: the test is on the prefix of the string, not on
  the first segment. With an absolute working directory and for every base, the candidate
  \<^verbatim>\<open>..notes\<close> resolves to a file directly under the base, its relative path is
  \<^verbatim>\<open>..notes\<close>, and the guard rejects it.
\<close>

theorem isPathSafe_prefix_test:
  "(startsWith (path_relative cwd (path_resolve cwd [base]) (path_resolve cwd [base, f])) ''..''
      \<longrightarrow> \<not> isPathSafe cwd f base)
   \<and> (path_isAbsolute cwd \<longrightarrow>
        \<not> isPathSafe cwd ''..notes'' base
        \<and> path_resolve cwd [base, ''..notes''] =
            (if path_resolve cwd [base] = ''/'' then ''/..notes''
             else path_resolve cwd [base] @ ''/..notes'')
        \<and> path_relative cwd (path_resolve cwd [base]) (path_resolve cwd [base, ''..notes''])
            = ''..notes'')"
proof -
  have n: "\<forall>t\<in>set (split_on CHR ''/'' ''..notes''). plainSegment t"
    by (simp add: plainSegment_def)
  have s: "CHR ''/'' \<notin> set ''..notes''" by simp
  have 1: "startsWith (path_relative cwd (path_resolve cwd [base]) (path_resolve cwd [base, f])) ''..''
      \<longrightarrow> \<not> isPathSafe cwd f base"
    unfolding isPathSafe_def Let_def by blast
  have 2: "\<not> isPathSafe cwd ''..notes'' base" if "path_isAbsolute cwd"
    using isPathSafe_inside [OF that n, of base] by simp
  have 3: "path_resolve cwd [base, ''..notes''] =
            (if path_resolve cwd [base] = ''/'' then ''/..notes''
             else path_resolve cwd [base] @ ''/..notes'')" if "path_isAbsolute cwd"
    using path_resolve_under_base [OF that n s, of base] by simp
  have 4: "path_relative cwd (path_resolve cwd [base]) (path_resolve cwd [base, ''..notes''])
            = ''..notes''" if "path_isAbsolute cwd"
    using that n by (rule path_relative_inside)
  show ?thesis using 1 2 3 4 by blast
qed

theorem isPathSafe_prefix_test_witness:
  "path_isAbsolute ''/srv''
   \<and> startsWith (path_relative ''/srv'' (path_resolve ''/srv'' [''/base''])
                   (path_resolve ''/srv'' [''/base'', ''..notes''])) ''..''
   \<and> \<not> isPathSafe ''/srv'' ''..notes'' ''/base''
   \<and> path_resolve ''/srv'' [''/base'', ''..notes''] = ''/base/..notes''"
proof -
  have a: "path_isAbsolute ''/srv''" by (simp add: path_isAbsolute_def)
  have b: "startsWith (path_relative ''/srv'' (path_resolve ''/srv'' [''/base''])
                   (path_resolve ''/srv'' [''/base'', ''..notes''])) ''..''" by code_simp
  have c: "path_resolve ''/srv'' [''/base''] = ''/base''" by code_simp
  have d: "''/base'' \<noteq> ''/''" by simp
  note inst = isPathSafe_prefix_test [of "''/srv''" "''/base''" "''..notes''"]
  have e: "\<not> isPathSafe ''/srv'' ''..notes'' ''/base''" using inst b by blast
  have "path_resolve ''/srv'' [''/base'', ''..notes''] =
            (if path_resolve ''/srv'' [''/base''] = ''/'' then ''/..notes''
             else path_resolve ''/srv'' [''/base''] @ ''/..notes'')"
    using inst a by blast
  then have f: "path_resolve ''/srv'' [''/base'', ''..notes''] = ''/base/..notes''"
    by (simp only: c d if_False) simp
  show ?thesis using a b e f by blast
qed

section \<open>Properties of command validation\<close>

lemma validateCommand_allowed_in_allowlist:
  "validateCommand parse s = Inr v \<Longrightarrow> allowed v \<Longrightarrow> command v \<in> set BASH_COMMAND_ALLOWLIST"
  by (auto simp: validateCommand_def Let_def split: if_splits sum.splits list.splits option.splits)

lemma validateCommand_not_listed:
  "trim s \<noteq> [] \<Longrightarrow> parse (trim s) = Inr parsed \<Longrightarrow> \<not> list_ex hasOp parsed
   \<Longrightarrow> stringTokens parsed = cmd # rest \<Longrightarrow> path_basename cmd \<notin> set BASH_COMMAND_ALLOWLIST
   \<Longrightarrow> validateCommand parse s =
         Inr \<lparr>allowed = False, command = path_basename cmd, args = rest,
              error = Some (''Command '' @ [SQ] @ path_basename cmd @ [SQ]
                             @ '' is not in the allowlist'')\<rparr>"
  by (simp add: validateCommand_def Let_def)

lemma validate_ls: "validateCommand (shellQuoteParse getVar) ''ls -la'' =
     Inr \<lparr>allowed = True, command = ''ls'', args = [''-la''], error = None\<rparr>"
  by code_simp

lemma validate_rm: "validateCommand (shellQuoteParse getVar) ''rm -rf /'' =
     Inr \<lparr>allowed = False, command = ''rm'', args = [''-rf'', ''/''],
          error = Some (''Command '' @ [SQ] @ ''rm'' @ [SQ] @ '' is not in the allowlist'')\<rparr>"
  by code_simp

lemma validate_bin_ls: "validateCommand (shellQuoteParse getVar) ''/bin/ls'' =
     Inr \<lparr>allowed = True, command = ''ls'', args = [], error = None\<rparr>"
  by code_simp

lemma validate_and: "validateCommand (shellQuoteParse getVar) ''echo a && echo b'' =
     Inr \<lparr>allowed = False, command = [], args = [],
          error = Some ''Shell operators (&&, ||, |, ;, etc.) are not allowed''\<rparr>"
  by code_simp

lemma validate_subshell: "validateCommand (shellQuoteParse getVar) ''echo $(whoami)'' =
     Inr \<lparr>allowed = False, command = [], args = [],
          error = Some ''Shell operators (&&, ||, |, ;, etc.) are not allowed''\<rparr>"
  by code_simp

text \<open>
  Claim C1. With the tokenizer of shell-quote, \<^verbatim>\<open>validateCommand("ls -la")\<close> is allowed
  with command \<^verbatim>\<open>ls\<close> and arguments \<^verbatim>\<open>["-la"]\<close>; \<^verbatim>\<open>"rm -rf /"\<close> is rejected with the name
  \<^verbatim>\<open>rm\<close> in the error; \<^verbatim>\<open>"/bin/ls"\<close> is judged by its base name \<^verbatim>\<open>ls\<close>;
  \<^verbatim>\<open>"echo a && echo b"\<close> and \<^verbatim>\<open>"echo $(whoami)"\<close> are rejected for their operators. For
  every tokenizer and every line: a command that is allowed has its base name on the
  allowlist, by exact match; and a line without operators whose base name is not on the
  list is rejected with that name in the error.
\<close>

theorem validateCommand_allowlist:
  "validateCommand (shellQuoteParse getVar) ''ls -la'' =
     Inr \<lparr>allowed = True, command = ''ls'', args = [''-la''], error = None\<rparr>
   \<and> validateCommand (shellQuoteParse getVar) ''rm -rf /'' =
     Inr \<lparr>allowed = False, command = ''rm'', args = [''-rf'', ''/''],
          error = Some (''Command '' @ [SQ] @ ''rm'' @ [SQ] @ '' is not in the allowlist'')\<rparr>
   \<and> validateCommand (shellQuoteParse getVar) ''/bin/ls'' =
     Inr \<lparr>allowed = True, command = ''ls'', args = [], error = None\<rparr>
   \<and> validateCommand (shellQuoteParse getVar) ''echo a && echo b'' =
     Inr \<lparr>allowed = False, command = [], args = [],
          error = Some ''Shell operators (&&, ||, |, ;, etc.) are not allowed''\<rparr>
   \<and> validateCommand (shellQuoteParse getVar) ''echo $(whoami)'' =
     Inr \<lparr>allowed = False, command = [], args = [],
          error = Some ''Shell operators (&&, ||, |, ;, etc.) are not allowed''\<rparr>
   \<and> (\<forall>parse s v. validateCommand parse s = Inr v \<longrightarrow> allowed v
          \<longrightarrow> command v \<in> set BASH_COMMAND_ALLOWLIST)
   \<and> (\<forall>parse s parsed cmd rest.
          trim s \<noteq> [] \<longrightarrow> parse (trim s) = Inr parsed \<longrightarrow> \<not> list_ex hasOp parsed
          \<longrightarrow> stringTokens parsed = cmd # rest
          \<longrightarrow> path_basename cmd \<notin> set BASH_COMMAND_ALLOWLIST
          \<longrightarrow> validateCommand parse s =
                Inr \<lparr>allowed = False, command = path_basename cmd, args = rest,
                     error = Some (''Command '' @ [SQ] @ path_basename cmd @ [SQ]
                                    @ '' is not in the allowlist'')\<rparr>)"
  using validate_ls validate_rm validate_bin_ls validate_and validate_subshell
    validateCommand_allowed_in_allowlist validateCommand_not_listed
  by blast

theorem validateCommand_allowlist_witness:
  "trim ''rm -rf /'' \<noteq> []
   \<and> shellQuoteParse (\<lambda>k. []) (trim ''rm -rf /'') = Inr [Str ''rm'', Str ''-rf'', Str ''/'']
   \<and> \<not> list_ex hasOp [Str ''rm'', Str ''-rf'', Str ''/'']
   \<and> stringTokens [Str ''rm'', Str ''-rf'', Str ''/''] = ''rm'' # [''-rf'', ''/'']
   \<and> path_basename ''rm'' \<notin> set BASH_COMMAND_ALLOWLIST
   \<and> validateCommand (shellQuoteParse (\<lambda>k. [])) ''rm -rf /'' =
        Inr \<lparr>allowed = False, command = path_basename ''rm'', args = [''-rf'', ''/''],
             error = Some (''Command '' @ [SQ] @ path_basename ''rm'' @ [SQ]
                            @ '' is not in the allowlist'')\<rparr>
   \<and> validateCommand (shellQuoteParse (\<lambda>k. [])) ''ls -la'' =
        Inr \<lparr>allowed = True, command = ''ls'', args = [''-la''], error = None\<rparr>
   \<and> allowed \<lparr>allowed = True, command = ''ls'', args = [''-la''], error = None\<rparr>
   \<and> command \<lparr>allowed = True, command = ''ls'', args = [''-la''], error = None\<rparr>
        \<in> set BASH_COMMAND_ALLOWLIST"
proof -
  let ?p = "shellQuoteParse (\<lambda>k. [])"
  let ?v = "\<lparr>allowed = True, command = ''ls'', args = [''-la''], error = None\<rparr>"
  note inst = validateCommand_allowlist [of "\<lambda>k. []"]
  have h1: "trim ''rm -rf /'' \<noteq> []" by code_simp
  have h2: "?p (trim ''rm -rf /'') = Inr [Str ''rm'', Str ''-rf'', Str ''/'']" by code_simp
  have h3: "\<not> list_ex hasOp [Str ''rm'', Str ''-rf'', Str ''/'']" by simp
  have h4: "stringTokens [Str ''rm'', Str ''-rf'', Str ''/''] = ''rm'' # [''-rf'', ''/'']" by simp
  have h5: "path_basename ''rm'' \<notin> set BASH_COMMAND_ALLOWLIST" by code_simp
  have c1: "validateCommand ?p ''rm -rf /'' =
        Inr \<lparr>allowed = False, command = path_basename ''rm'', args = [''-rf'', ''/''],
             error = Some (''Command '' @ [SQ] @ path_basename ''rm'' @ [SQ]
                            @ '' is not in the allowlist'')\<rparr>"
    using inst h1 h2 h3 h4 h5 by blast
  have h6: "validateCommand ?p ''ls -la'' = Inr ?v" using inst by blast
  have h7: "allowed ?v" by simp
  have c2: "command ?v \<in> set BASH_COMMAND_ALLOWLIST" using inst h6 h7 by blast
  show ?thesis using h1 h2 h3 h4 h5 c1 h6 h7 c2 by blast
qed

text \<open>
  Claim C9. For every tokenizer and every line, \<^verbatim>\<open>isBashCommandAllowed\<close> returns the
  \<^verbatim>\<open>allowed\<close> field of what \<^verbatim>\<open>validateCommand\<close> returns, and throws what it throws.
\<close>

theorem isBashCommandAllowed_agrees:
  "isBashCommandAllowed parse s = map_sum id allowed (validateCommand parse s)"
  by (simp add: isBashCommandAllowed_def split: sum.splits)

section \<open>Properties of output sanitizing\<close>

lemma concat_filter_spread:
  "concat (filter (\<lambda>ch. let c = code (hd ch) in c = 9 \<or> c = 10 \<or> c = 13 \<or> (c \<ge> 32 \<and> c \<noteq> 127))
             (spread code s))
   = filter (\<lambda>c. \<not> (code c \<noteq> 9 \<and> code c \<noteq> 10 \<and> code c \<noteq> 13 \<and> (code c < 32 \<or> code c = 127))) s"
proof (induction code s rule: spread.induct)
  case (1 code)
  show ?case by simp
next
  case (2 code c)
  show ?case by (simp add: Let_def)
next
  case (3 code c d r)
  show ?case
  proof (cases "0xD800 \<le> code c \<and> code c \<le> 0xDBFF \<and> 0xDC00 \<le> code d \<and> code d \<le> 0xDFFF")
    case True
    then have "spread code (c # d # r) = [c, d] # spread code r" by simp
    moreover have "\<not> (code c \<noteq> 9 \<and> code c \<noteq> 10 \<and> code c \<noteq> 13 \<and> (code c < 32 \<or> code c = 127))"
      using True by arith
    moreover have "\<not> (code d \<noteq> 9 \<and> code d \<noteq> 10 \<and> code d \<noteq> 13 \<and> (code d < 32 \<or> code d = 127))"
      using True by arith
    moreover have "code c = 9 \<or> code c = 10 \<or> code c = 13 \<or> (code c \<ge> 32 \<and> code c \<noteq> 127)"
      using True by arith
    ultimately show ?thesis using 3(1) [OF True] by (simp add: Let_def del: spread.simps)
  next
    case False
    then have sp: "spread code (c # d # r) = [c] # spread code (d # r)" by simp
    have "(code c = 9 \<or> code c = 10 \<or> code c = 13 \<or> (code c \<ge> 32 \<and> code c \<noteq> 127))
          = (\<not> (code c \<noteq> 9 \<and> code c \<noteq> 10 \<and> code c \<noteq> 13 \<and> (code c < 32 \<or> code c = 127)))"
      by arith
    then show ?thesis using 3(2) [OF False] by (simp add: sp Let_def del: spread.simps)
  qed
qed

lemma sanitizeOutput_as_filter:
  "sanitizeOutput code s =
     filter (\<lambda>c. \<not> (code c \<noteq> 9 \<and> code c \<noteq> 10 \<and> code c \<noteq> 13 \<and> (code c < 32 \<or> code c = 127))) s"
  unfolding sanitizeOutput_def by (simp only: concat_filter_spread) simp

text \<open>
  Claim C6. For every string, of whatever code units, \<^verbatim>\<open>sanitizeOutput\<close> returns the
  string without the code units that are none of 9, 10 and 13 and are below 32 or equal to
  127, and keeps every other code unit in place; \<^verbatim>\<open>"a\x00b\tc\n"\<close> becomes \<^verbatim>\<open>"ab\tc\n"\<close>.
  The function is a total function of its argument alone.
\<close>

theorem sanitizeOutput_removes_controls:
  "sanitizeOutput code s =
     filter (\<lambda>c. \<not> (code c \<noteq> 9 \<and> code c \<noteq> 10 \<and> code c \<noteq> 13 \<and> (code c < 32 \<or> code c = 127))) s
   \<and> sanitizeOutput of_char [CHR ''a'', CHR 0x00, CHR ''b'', CHR 0x09, CHR ''c'', CHR 0x0A]
       = [CHR ''a'', CHR ''b'', CHR 0x09, CHR ''c'', CHR 0x0A]"
proof
  show "sanitizeOutput code s =
     filter (\<lambda>c. \<not> (code c \<noteq> 9 \<and> code c \<noteq> 10 \<and> code c \<noteq> 13 \<and> (code c < 32 \<or> code c = 127))) s"
    by (rule sanitizeOutput_as_filter)
  show "sanitizeOutput of_char [CHR ''a'', CHR 0x00, CHR ''b'', CHR 0x09, CHR ''c'', CHR 0x0A]
       = [CHR ''a'', CHR ''b'', CHR 0x09, CHR ''c'', CHR 0x0A]"
    by (simp add: sanitizeOutput_def)
qed

section \<open>Properties of include resolution\<close>

lemma getSubstitution_plain:
  "CHR ''$'' \<notin> set repl \<Longrightarrow> getSubstitution matched pre after repl = repl"
  by (induction matched pre after repl rule: getSubstitution.induct) auto

text \<open>The run of non-whitespace characters that the group of the include pattern takes.\<close>

lemma star_nonspace:
  assumes "\<forall>c\<in>set name. \<not> isWhiteSpace c" "post = [] \<or> isWhiteSpace (hd post)"
  shows "matchK ml [R (Star (NotChars whiteSpaceChars)), GroupEnd s0] prev (name @ post) cap
           = Some (post, Some (take (length s0 - length post) s0))"
  using assms(1)
proof (induction name arbitrary: prev)
  case Nil
  show ?case
    using assms(2) by (cases post) (auto simp: isWhiteSpace_def)
next
  case (Cons c name)
  then show ?case by (simp add: isWhiteSpace_def)
qed

lemma group_nonspace:
  assumes "name \<noteq> []" "\<forall>c\<in>set name. \<not> isWhiteSpace c" "post = [] \<or> isWhiteSpace (hd post)"
  shows "matchK ml [R (Group (Plus (NotChars whiteSpaceChars)))] prev (name @ post) cap
           = Some (post, Some name)"
proof -
  obtain c r where name: "name = c # r" using assms(1) by (cases name) auto
  have c: "c \<notin> set whiteSpaceChars" and r: "\<forall>c\<in>set r. \<not> isWhiteSpace c"
    using assms(2) name by (auto simp: isWhiteSpace_def)
  have "matchK ml [R (Group (Plus (NotChars whiteSpaceChars)))] prev (name @ post) cap
          = matchK ml [R (Star (NotChars whiteSpaceChars)), GroupEnd (name @ post)]
              (Some c) (r @ post) cap"
    using c by (simp add: name Plus_def del: matchK.simps(7))
  also have "\<dots> = Some (post, Some (take (length (name @ post) - length post) (name @ post)))"
    using r assms(3) by (rule star_nonspace)
  finally show ?thesis by simp
qed


lemma at_not_space: "isWhiteSpace w \<Longrightarrow> w \<noteq> CHR ''@''"
  by (auto simp: isWhiteSpace_def whiteSpaceChars_def)

text \<open>Where the include pattern cannot match: no \<^verbatim>\<open>@\<close> here, and none right after.\<close>

lemma include_no_match:
  assumes "c \<noteq> CHR ''@''" "rest = [] \<or> hd rest \<noteq> CHR ''@''"
  shows "matchK True [R includePattern] prev (c # rest) None = None"
proof -
  have k1: "matchK True [R (Seq (Chars ''@'') (Group (Plus (NotChars whiteSpaceChars))))] p
              (c # rest) None = None" for p
    using assms(1) by simp
  have k2: "matchK True [R (Seq (Chars ''@'') (Group (Plus (NotChars whiteSpaceChars))))] p
              rest None = None" for p
    using assms(2) by (cases rest) auto
  show ?thesis
    unfolding includePattern_def
    by (cases prev) (simp_all add: k1 k2 del: matchK.simps(5) add: matchK.simps(5) [of _ "Alt Bol (Chars whiteSpaceChars)"])
qed

lemma include_no_match_end: "matchK True [R includePattern] prev [] None = None"
  unfolding includePattern_def by (cases prev) simp_all

lemma include_match_space:
  assumes "isWhiteSpace w" "name \<noteq> []" "\<forall>c\<in>set name. \<not> isWhiteSpace c"
    "post = [] \<or> isWhiteSpace (hd post)"
  shows "matchK True [R includePattern] prev (w # CHR ''@'' # name @ post) None
           = Some (post, Some name)"
proof -
  have w: "w \<noteq> CHR ''@''" "w \<in> set whiteSpaceChars"
    using assms(1) at_not_space by (auto simp: isWhiteSpace_def)
  have g: "matchK True [R (Group (Plus (NotChars whiteSpaceChars)))] (Some CHR ''@'') (name @ post) None
             = Some (post, Some name)"
    using assms(2,3,4) by (rule group_nonspace)
  show ?thesis
    unfolding includePattern_def
    using w by (cases prev) (simp_all add: g del: matchK.simps(14))
qed

lemma include_match_start:
  assumes "name \<noteq> []" "\<forall>c\<in>set name. \<not> isWhiteSpace c" "post = [] \<or> isWhiteSpace (hd post)"
  shows "matchK True [R includePattern] None (CHR ''@'' # name @ post) None
           = Some (post, Some name)"
proof -
  have g: "matchK True [R (Group (Plus (NotChars whiteSpaceChars)))] (Some CHR ''@'') (name @ post) None
             = Some (post, Some name)"
    using assms by (rule group_nonspace)
  show ?thesis
    unfolding includePattern_def
    by (simp add: g del: matchK.simps(14))
qed


text \<open>The matches of the include pattern in a text with one marker.\<close>

lemma matchAll_include_none:
  "CHR ''@'' \<notin> set s \<Longrightarrow> matchAllFrom True includePattern i prev s = []"
proof (induction s arbitrary: i prev)
  case Nil
  show ?case by (simp add: matchAllFrom.simps include_no_match_end)
next
  case (Cons c s)
  have c: "c \<noteq> CHR ''@''" using Cons.prems by auto
  have r: "s = [] \<or> hd s \<noteq> CHR ''@''" using Cons.prems by (cases s) auto
  have "matchK True [R includePattern] prev (c # s) None = None"
    using c r by (rule include_no_match)
  then show ?case
    using Cons by (simp add: matchAllFrom.simps [of _ _ _ _ "c # s"])
qed

lemma matchAll_include_space:
  assumes "isWhiteSpace w" "name \<noteq> []" "\<forall>c\<in>set name. \<not> isWhiteSpace c"
    "post = [] \<or> isWhiteSpace (hd post)" "CHR ''@'' \<notin> set post"
  shows "CHR ''@'' \<notin> set pre \<Longrightarrow>
         matchAllFrom True includePattern i prev (pre @ w # CHR ''@'' # name @ post)
           = [\<lparr>m_index = i + length pre, m_full = w # CHR ''@'' # name, m_group = Some name\<rparr>]"
proof (induction pre arbitrary: i prev)
  case Nil
  have m: "matchK True [R includePattern] prev (w # CHR ''@'' # name @ post) None
             = Some (post, Some name)"
    using assms(1-4) by (rule include_match_space)
  have rest: "matchAllFrom True includePattern j p post = []" for j p
    using assms(5) by (rule matchAll_include_none)
  show ?case
    by (simp add: matchAllFrom.simps [of _ _ _ _ "w # CHR ''@'' # name @ post"] m rest Let_def)
next
  case (Cons c pre)
  have w: "w \<noteq> CHR ''@''" using assms(1) by (rule at_not_space)
  have c: "c \<noteq> CHR ''@''" using Cons.prems by auto
  have r: "pre @ w # CHR ''@'' # name @ post = [] \<or> hd (pre @ w # CHR ''@'' # name @ post) \<noteq> CHR ''@''"
    using Cons.prems w by (cases pre) auto
  have "matchK True [R includePattern] prev (c # pre @ w # CHR ''@'' # name @ post) None = None"
    using c r by (rule include_no_match)
  then show ?case
    using Cons
    by (simp add: matchAllFrom.simps [of _ _ _ _ "c # pre @ w # CHR ''@'' # name @ post"])
qed

lemma matchAll_include_start:
  assumes "name \<noteq> []" "\<forall>c\<in>set name. \<not> isWhiteSpace c"
    "post = [] \<or> isWhiteSpace (hd post)" "CHR ''@'' \<notin> set post"
  shows "matchAll True includePattern (CHR ''@'' # name @ post)
           = [\<lparr>m_index = 0, m_full = CHR ''@'' # name, m_group = Some name\<rparr>]"
proof -
  have m: "matchK True [R includePattern] None (CHR ''@'' # name @ post) None
             = Some (post, Some name)"
    using assms(1-3) by (rule include_match_start)
  have rest: "matchAllFrom True includePattern j p post = []" for j p
    using assms(4) by (rule matchAll_include_none)
  show ?thesis
    unfolding matchAll_def
    by (simp add: matchAllFrom.simps [of _ _ _ _ "CHR ''@'' # name @ post"] m rest Let_def)
qed

text \<open>The first occurrence of the marker in such a text is the marker.\<close>

lemma replaceFirstFrom_marker:
  assumes "w \<noteq> CHR ''@''"
  shows "CHR ''@'' \<notin> set pre \<Longrightarrow>
         replaceFirstFrom (w # CHR ''@'' # name) repl b (pre @ w # CHR ''@'' # name @ post)
           = pre @ getSubstitution (w # CHR ''@'' # name) (b @ pre) post repl @ post"
proof (induction pre arbitrary: b)
  case Nil
  show ?case
    by (simp add: replaceFirstFrom.simps [of _ _ _ "w # CHR ''@'' # name @ post"])
next
  case (Cons c pre)
  have pre: "CHR ''@'' \<notin> set pre" using Cons.prems by simp
  have np: "prefix (w # CHR ''@'' # name) (c # pre @ w # CHR ''@'' # name @ post) = False"
    using Cons.prems assms by (cases pre) auto
  have "replaceFirstFrom (w # CHR ''@'' # name) repl b ((c # pre) @ w # CHR ''@'' # name @ post)
          = c # replaceFirstFrom (w # CHR ''@'' # name) repl (b @ [c])
                  (pre @ w # CHR ''@'' # name @ post)"
    by (subst replaceFirstFrom.simps) (simp only: append_Cons np if_False list.case)
  also have "\<dots> = c # (pre @ getSubstitution (w # CHR ''@'' # name) ((b @ [c]) @ pre) post repl
                            @ post)"
    by (simp only: Cons.IH [OF pre])
  finally show ?case by simp
qed

lemma replaceFirst_marker_start:
  "replaceFirst (CHR ''@'' # name) repl (CHR ''@'' # name @ post)
     = getSubstitution (CHR ''@'' # name) [] post repl @ post"
  by (simp add: replaceFirst_def replaceFirstFrom.simps [of _ _ _ "CHR ''@'' # name @ post"])

text \<open>Include resolution of a text with one marker: after a whitespace character, or at the start.\<close>

lemma processFileIncludes_one_marker:
  assumes "depth < MAX_INCLUDE_DEPTH" "isWhiteSpace w" "CHR ''@'' \<notin> set pre"
    "name \<noteq> []" "\<forall>c\<in>set name. \<not> isWhiteSpace c"
    "post = [] \<or> isWhiteSpace (hd post)" "CHR ''@'' \<notin> set post"
  shows "processFileIncludes cwd readFile (pre @ w # CHR ''@'' # name @ post) base depth =
           (case resolveMarker cwd readFile
                   (\<lambda>fileContent. processFileIncludes cwd readFile fileContent base (depth + 1)) base
                   \<lparr>m_index = length pre, m_full = w # CHR ''@'' # name, m_group = Some name\<rparr> of
              Inl e \<Rightarrow> Inl e
            | Inr replacement \<Rightarrow>
                Inr (pre @ getSubstitution (w # CHR ''@'' # name) pre post replacement @ post))"
proof -
  let ?content = "pre @ w # CHR ''@'' # name @ post"
  let ?m = "\<lparr>m_index = length pre, m_full = w # CHR ''@'' # name, m_group = Some name\<rparr>"
  have w: "w \<noteq> CHR ''@''" using assms(2) by (rule at_not_space)
  have ms: "matchAll True includePattern ?content = [?m]"
    unfolding matchAll_def
    using matchAll_include_space [OF assms(2,4,5,6,7,3), of 0 None] by simp
  have rf: "replaceFirst (w # CHR ''@'' # name) replacement ?content
              = pre @ getSubstitution (w # CHR ''@'' # name) pre post replacement @ post"
    for replacement
    unfolding replaceFirst_def
    using replaceFirstFrom_marker [OF w assms(3), of name replacement "[]" post] by simp
  have "processFileIncludes cwd readFile ?content base depth =
          includeLoop cwd readFile
            (\<lambda>fileContent. processFileIncludes cwd readFile fileContent base (depth + 1))
            base [?m] ?content"
    using assms(1) by (subst processFileIncludes.simps) (simp add: ms Let_def)
  then show ?thesis
    by (simp add: rf split: sum.splits)
qed

lemma processFileIncludes_marker_at_start:
  assumes "depth < MAX_INCLUDE_DEPTH"
    "name \<noteq> []" "\<forall>c\<in>set name. \<not> isWhiteSpace c"
    "post = [] \<or> isWhiteSpace (hd post)" "CHR ''@'' \<notin> set post"
  shows "processFileIncludes cwd readFile (CHR ''@'' # name @ post) base depth =
           (case resolveMarker cwd readFile
                   (\<lambda>fileContent. processFileIncludes cwd readFile fileContent base (depth + 1)) base
                   \<lparr>m_index = 0, m_full = CHR ''@'' # name, m_group = Some name\<rparr> of
              Inl e \<Rightarrow> Inl e
            | Inr replacement \<Rightarrow>
                Inr (getSubstitution (CHR ''@'' # name) [] post replacement @ post))"
proof -
  let ?content = "CHR ''@'' # name @ post"
  let ?m = "\<lparr>m_index = 0, m_full = CHR ''@'' # name, m_group = Some name\<rparr>"
  have ms: "matchAll True includePattern ?content = [?m]"
    using assms(2-5) by (rule matchAll_include_start)
  have "processFileIncludes cwd readFile ?content base depth =
          includeLoop cwd readFile
            (\<lambda>fileContent. processFileIncludes cwd readFile fileContent base (depth + 1))
            base [?m] ?content"
    using assms(1) by (subst processFileIncludes.simps) (simp add: ms Let_def)
  then show ?thesis
    by (simp add: replaceFirst_marker_start split: sum.splits)
qed





text \<open>
  A body with one marker \<^verbatim>\<open>@name\<close>, whose included content resolves to a text without
  dollar signs (which \<^verbatim>\<open>replace\<close> would read as replacement patterns): the matched text
  is replaced by the recursively resolved content; when the match began with a space
  character, one space stands before the content, and when the marker stood at the start
  of the body, the content stands there alone.
\<close>

lemma include_marker_after_space:
  assumes "depth < MAX_INCLUDE_DEPTH"
    and "CHR ''@'' \<notin> set pre" "name \<noteq> []" "\<forall>c\<in>set name. \<not> isWhiteSpace c"
      "post = [] \<or> isWhiteSpace (hd post)" "CHR ''@'' \<notin> set post"
    and "isPathSafe cwd name base" "readFile (path_resolve cwd [base, name]) = Inr fileContent"
    and "processFileIncludes cwd readFile fileContent base (depth + 1) = Inr resolved"
      "CHR ''$'' \<notin> set resolved"
  shows "processFileIncludes cwd readFile (pre @ '' @'' @ name @ post) base depth
           = Inr (pre @ '' '' @ resolved @ post)
       \<and> processFileIncludes cwd readFile (''@'' @ name @ post) base depth
           = Inr (resolved @ post)"
proof -
  have sp: "isWhiteSpace CHR '' ''" by (simp add: isWhiteSpace_def whiteSpaceChars_def)
  have d: "CHR ''$'' \<notin> set ('' '' @ resolved)" using assms(10) by simp
  have "processFileIncludes cwd readFile (pre @ '' @'' @ name @ post) base depth
           = Inr (pre @ '' '' @ resolved @ post)"
    using processFileIncludes_one_marker [OF assms(1) sp assms(2-6), of cwd readFile base]
      assms(7-9) getSubstitution_plain [OF d]
    by (simp add: resolveMarker_def startsWith_def)
  moreover have "processFileIncludes cwd readFile (''@'' @ name @ post) base depth
           = Inr (resolved @ post)"
    using processFileIncludes_marker_at_start [OF assms(1) assms(3-6), of cwd readFile base]
      assms(7-9) getSubstitution_plain [OF assms(10)]
    by (simp add: resolveMarker_def startsWith_def)
  ultimately show ?thesis by simp
qed

lemma include_marker_after_space_example:
  "0 < MAX_INCLUDE_DEPTH \<and> CHR ''@'' \<notin> set ''Hello world, see'' \<and> ''notes.txt'' \<noteq> []
   \<and> list_all (\<lambda>c. \<not> isWhiteSpace c) ''notes.txt''
   \<and> isPathSafe ''/srv'' ''notes.txt'' ''/base''
   \<and> notesFiles (path_resolve ''/srv'' [''/base'', ''notes.txt'']) = Inr ''done''
   \<and> processFileIncludes ''/srv'' notesFiles ''done'' ''/base'' (0 + 1) = Inr ''done''
   \<and> CHR ''$'' \<notin> set ''done''
   \<and> processFileIncludes ''/srv'' notesFiles ''Hello world, see @notes.txt'' ''/base'' 0
        = Inr ''Hello world, see done''
   \<and> processFileIncludes ''/srv'' notesFiles ''@notes.txt'' ''/base'' 0 = Inr ''done''"
proof -
  have h1: "0 < MAX_INCLUDE_DEPTH" by (simp add: MAX_INCLUDE_DEPTH_def)
  have h2: "CHR ''@'' \<notin> set ''Hello world, see''" by simp
  have h3: "''notes.txt'' \<noteq> []" by simp
  have h4: "\<forall>c\<in>set ''notes.txt''. \<not> isWhiteSpace c"
    by (simp add: isWhiteSpace_def whiteSpaceChars_def)
  have h5: "[] = [] \<or> isWhiteSpace (hd [])" by simp
  have h6: "CHR ''@'' \<notin> set []" by simp
  have h7: "isPathSafe ''/srv'' ''notes.txt'' ''/base''" by code_simp
  have h8: "notesFiles (path_resolve ''/srv'' [''/base'', ''notes.txt'']) = Inr ''done''"
    by code_simp
  have h9: "processFileIncludes ''/srv'' notesFiles ''done'' ''/base'' (0 + 1) = Inr ''done''"
    by code_simp
  have h10: "CHR ''$'' \<notin> set ''done''" by simp
  have h4': "list_all (\<lambda>c. \<not> isWhiteSpace c) ''notes.txt''"
    using h4 by (simp only: list_all_iff)
  show ?thesis
    using include_marker_after_space [OF h1 h2 h3 h4 h5 h6 h7 h8 h9 h10] h1 h2 h3 h4' h7 h8 h9 h10
    by simp
qed

section \<open>Properties of the two expansion loops\<close>

lemma includeLoop_append:
  "includeLoop cwd readFile recur base (ms1 @ ms2) result =
     (case includeLoop cwd readFile recur base ms1 result of
        Inl e \<Rightarrow> Inl e
      | Inr r1 \<Rightarrow> includeLoop cwd readFile recur base ms2 r1)"
  by (induction ms1 arbitrary: result) (auto split: sum.splits)

lemma includeLoop_resolved:
  "\<forall>m\<in>set ms. \<exists>r. resolveMarker cwd readFile recur base m = Inr r
   \<Longrightarrow> \<exists>r1. includeLoop cwd readFile recur base ms result = Inr r1"
  by (induction ms arbitrary: result) auto

lemma includeLoop_Inr_all:
  "includeLoop cwd readFile recur base ms result = Inr out
   \<Longrightarrow> \<forall>m\<in>set ms. \<exists>r. resolveMarker cwd readFile recur base m = Inr r"
  by (induction ms arbitrary: result) (auto split: sum.splits)

lemma includeLoop_first_failure:
  assumes "\<forall>m'\<in>set ms1. \<exists>r. resolveMarker cwd readFile recur base m' = Inr r"
    "resolveMarker cwd readFile recur base m = Inl e"
  shows "includeLoop cwd readFile recur base (ms1 @ m # ms2) result = Inl e"
proof -
  obtain r1 where "includeLoop cwd readFile recur base ms1 result = Inr r1"
    using includeLoop_resolved [OF assms(1)] by blast
  then show ?thesis using assms(2) by (simp add: includeLoop_append)
qed

lemma processFileIncludes_loop:
  "content \<noteq> [] \<Longrightarrow> depth < MAX_INCLUDE_DEPTH
   \<Longrightarrow> processFileIncludes cwd readFile content base depth =
         includeLoop cwd readFile
           (\<lambda>fileContent. processFileIncludes cwd readFile fileContent base (depth + 1))
           base (matchAll True includePattern content) content"
  by (subst processFileIncludes.simps) (simp add: Let_def)

lemma bashLoop_append:
  "bashLoop parse exec opts (ms1 @ ms2) result w =
     (case bashLoop parse exec opts ms1 result w of
        (Inl e, w1) \<Rightarrow> (Inl e, w1)
      | (Inr r1, w1) \<Rightarrow> bashLoop parse exec opts ms2 r1 w1)"
  by (induction ms1 arbitrary: result w) (auto split: sum.splits prod.splits)

lemma bashLoop_first_failure:
  assumes "bashLoop parse exec opts ms1 result w = (Inr r1, w1)"
    "runCommand parse exec opts m w1 = (Inl e, w2)"
  shows "bashLoop parse exec opts (ms1 @ m # ms2) result w = (Inl e, w2)"
  using assms by (simp add: bashLoop_append)

lemma processBashCommands_loop:
  "content \<noteq> [] \<Longrightarrow>
   processBashCommands parse exec processCwd content options w =
     bashLoop parse exec (bashOptions processCwd options)
       (matchAll False commandPattern content) content w"
  by (simp add: processBashCommands_def Let_def)

lemma runCommand_rejected:
  assumes "validateCommand parse (commandStringOf m) = Inr v" "allowed v"
    "exec w (command v) (args v) opts = (Rejected killed msg, w')"
  shows "runCommand parse exec opts m w =
           (Inl (if killed then CommandTimeout (commandStringOf m)
                 else CommandFailed (commandStringOf m) msg), w')"
  using assms by (simp add: runCommand_def Let_def)

text \<open>What the example environment makes of \<^verbatim>\<open>!echo hi\<close>.\<close>

lemma example_echo:
  "runCommand (shellQuoteParse (\<lambda>k. [])) exampleExec opts
     \<lparr>m_index = 0, m_full = ''!echo hi'', m_group = Some ''echo hi''\<rparr> w
   = (Inr (''hi'' @ [CHR 0x0A]), Suc w)"
proof -
  have c: "commandStringOf \<lparr>m_index = 0, m_full = ''!echo hi'', m_group = Some ''echo hi''\<rparr>
             = ''echo hi''" by code_simp
  have v: "validateCommand (shellQuoteParse (\<lambda>k. [])) ''echo hi'' =
             Inr \<lparr>allowed = True, command = ''echo'', args = [''hi''], error = None\<rparr>"
    by code_simp
  have s: "sanitizeOutput of_char (''hi'' @ [CHR 0x0A]) = ''hi'' @ [CHR 0x0A]"
    by (simp add: sanitizeOutput_as_filter)
  have e: "exampleExec w ''echo'' [''hi''] opts = (Resolved (''hi'' @ [CHR 0x0A]) [], Suc w)"
    by (simp add: exampleExec_def)
  have sw: "startsWith ''!echo hi'' [CHR 0x0A] = False" by code_simp
  show ?thesis
    using s by (simp add: runCommand_def Let_def c v e sw)
qed


lemma processBashCommands_first_failure:
  assumes "body \<noteq> []" "matchAll False commandPattern body = cs1 @ c # cs2"
    "bashLoop parse exec (bashOptions processCwd options) cs1 body w = (Inr r1, w1)"
    "runCommand parse exec (bashOptions processCwd options) c w1 = (Inl e, w2)"
  shows "processBashCommands parse exec processCwd body options w = (Inl e, w2)"
  using assms by (simp add: processBashCommands_loop bashLoop_first_failure)

text \<open>What makes one marker fail, and what a marker that resolved has passed.\<close>

lemma resolveMarker_unsafe:
  "m_group m = Some filename \<Longrightarrow> \<not> isPathSafe cwd filename base
   \<Longrightarrow> resolveMarker cwd readFile recur base m = Inl (InvalidFilePath filename)"
  by (simp add: resolveMarker_def)

lemma resolveMarker_unreadable:
  "m_group m = Some filename \<Longrightarrow> isPathSafe cwd filename base
   \<Longrightarrow> readFile (path_resolve cwd [base, filename]) = Inl code
   \<Longrightarrow> resolveMarker cwd readFile recur base m =
         Inl (if code = ''ENOENT'' then FileNotFound filename else SystemError code)"
  by (simp add: resolveMarker_def)

lemma resolveMarker_nested:
  "m_group m = Some filename \<Longrightarrow> isPathSafe cwd filename base
   \<Longrightarrow> readFile (path_resolve cwd [base, filename]) = Inr fileContent
   \<Longrightarrow> recur fileContent = Inl e
   \<Longrightarrow> resolveMarker cwd readFile recur base m = Inl e"
  by (simp add: resolveMarker_def)

lemma resolveMarker_Inr:
  "resolveMarker cwd readFile recur base m = Inr r
   \<Longrightarrow> \<exists>filename fileContent resolved.
         m_group m = Some filename \<and> isPathSafe cwd filename base
       \<and> readFile (path_resolve cwd [base, filename]) = Inr fileContent
       \<and> recur fileContent = Inr resolved"
  by (auto simp: resolveMarker_def Let_def split: option.splits if_splits sum.splits)

lemma processFileIncludes_too_deep:
  "fileContent \<noteq> [] \<Longrightarrow> MAX_INCLUDE_DEPTH \<le> d
   \<Longrightarrow> processFileIncludes cwd readFile fileContent base d = Inl DepthExceeded"
  by (subst processFileIncludes.simps) simp

lemma matchAll_include_Nil: "matchAll True includePattern [] = []"
  by code_simp

lemma matchAll_command_Nil: "matchAll False commandPattern [] = []"
  by code_simp

lemma processFileIncludes_Inr_all:
  assumes "processFileIncludes cwd readFile content base depth = Inr out"
  shows "\<forall>m\<in>set (matchAll True includePattern content). \<exists>filename fileContent resolved.
           m_group m = Some filename \<and> isPathSafe cwd filename base
         \<and> readFile (path_resolve cwd [base, filename]) = Inr fileContent
         \<and> processFileIncludes cwd readFile fileContent base (depth + 1) = Inr resolved"
proof (cases "content = []")
  case True
  then show ?thesis by (simp add: matchAll_include_Nil)
next
  case False
  have d: "depth < MAX_INCLUDE_DEPTH"
  proof (rule ccontr)
    assume "\<not> depth < MAX_INCLUDE_DEPTH"
    then have "processFileIncludes cwd readFile content base depth = Inl DepthExceeded"
      using False by (intro processFileIncludes_too_deep) simp_all
    then show False using assms by simp
  qed
  have "includeLoop cwd readFile
           (\<lambda>fileContent. processFileIncludes cwd readFile fileContent base (depth + 1))
           base (matchAll True includePattern content) content = Inr out"
    using assms False d by (simp add: processFileIncludes_loop)
  then have "\<forall>m\<in>set (matchAll True includePattern content). \<exists>r.
             resolveMarker cwd readFile
               (\<lambda>fileContent. processFileIncludes cwd readFile fileContent base (depth + 1))
               base m = Inr r"
    by (rule includeLoop_Inr_all)
  then show ?thesis using resolveMarker_Inr by fast
qed

lemma runCommand_tokenizer:
  "validateCommand parse (commandStringOf m) = Inl t
   \<Longrightarrow> runCommand parse exec opts m w = (Inl (TokenizerError t), w)"
  by (simp add: runCommand_def Let_def)

lemma runCommand_disallowed:
  "validateCommand parse (commandStringOf m) = Inr v \<Longrightarrow> \<not> allowed v
   \<Longrightarrow> runCommand parse exec opts m w =
         (Inl (CommandNotAllowed (commandStringOf m)
                 (case error v of Some e \<Rightarrow> e | None \<Rightarrow> ''undefined'')), w)"
  by (simp add: runCommand_def Let_def)

lemma runCommand_Inr:
  "runCommand parse exec opts m w = (Inr r, w')
   \<Longrightarrow> \<exists>v stdout stderr. validateCommand parse (commandStringOf m) = Inr v \<and> allowed v
         \<and> exec w (command v) (args v) opts = (Resolved stdout stderr, w')"
  by (auto simp: runCommand_def Let_def split: sum.splits if_splits prod.splits exec_result.splits)

lemma bashLoop_Inr_all:
  "bashLoop parse exec opts ms result w = (Inr out, w')
   \<Longrightarrow> \<forall>m\<in>set ms. \<exists>v wa stdout stderr wb.
         validateCommand parse (commandStringOf m) = Inr v \<and> allowed v
       \<and> exec wa (command v) (args v) opts = (Resolved stdout stderr, wb)"
proof (induction ms arbitrary: result w)
  case Nil
  show ?case by simp
next
  case (Cons m ms)
  obtain x w1 where rc: "runCommand parse exec opts m w = (x, w1)" by (cases "runCommand parse exec opts m w")
  show ?case
  proof (cases x)
    case (Inl e)
    then show ?thesis using Cons.prems rc by simp
  next
    case (Inr r)
    then have rest: "bashLoop parse exec opts ms (replaceFirst (m_full m) r result) w1 = (Inr out, w')"
      using Cons.prems rc by simp
    have hd: "\<exists>v wa stdout stderr wb.
         validateCommand parse (commandStringOf m) = Inr v \<and> allowed v
       \<and> exec wa (command v) (args v) opts = (Resolved stdout stderr, wb)"
      using runCommand_Inr [of parse exec opts m w r w1] rc Inr by blast
    show ?thesis using hd Cons.IH [OF rest] by simp
  qed
qed

lemma processBashCommands_Inr_all:
  assumes "processBashCommands parse exec processCwd body options w = (Inr out, w')"
  shows "\<forall>c\<in>set (matchAll False commandPattern body). \<exists>v wa stdout stderr wb.
           validateCommand parse (commandStringOf c) = Inr v \<and> allowed v
         \<and> exec wa (command v) (args v) (bashOptions processCwd options)
             = (Resolved stdout stderr, wb)"
proof (cases "body = []")
  case True
  then show ?thesis by (simp add: matchAll_command_Nil)
next
  case False
  then have "bashLoop parse exec (bashOptions processCwd options)
       (matchAll False commandPattern body) body w = (Inr out, w')"
    using assms by (simp add: processBashCommands_loop)
  then show ?thesis by (rule bashLoop_Inr_all)
qed

text \<open>
  Claim C3. Include resolution, at a marker that names the file \<open>filename\<close> and is reached
  because the markers found before it all resolved: when the path guard rejects the name,
  the whole call throws the invalid-path error; when the file is missing, the not-found
  error; when reading fails otherwise, the error of the runtime; when the file is not empty
  and stands at the maximal depth, the depth error; and when resolving the included file
  fails, that error. Command expansion, at a marker reached because the commands before it
  all ran: when the tokenizer throws, the call throws; when the command is not allowed, the
  call throws the not-allowed error with the command line and the reason; when execution is
  rejected, the timeout or the failure error. An error is a value of its own, with no body
  beside it: the caller sees no partly substituted text. Conversely, a call that returns a
  body has, for every marker, accepted the path, read the file and resolved it, and a
  command expansion that returns a body has found every command allowed and run it.
\<close>

theorem expansion_aborts_on_failure:
  "(content \<noteq> [] \<longrightarrow> depth < MAX_INCLUDE_DEPTH
      \<longrightarrow> matchAll True includePattern content = ms1 @ m # ms2
      \<longrightarrow> (\<forall>m'\<in>set ms1. \<exists>r.
             resolveMarker cwd readFile
               (\<lambda>fileContent. processFileIncludes cwd readFile fileContent base (depth + 1))
               base m' = Inr r)
      \<longrightarrow> m_group m = Some filename
      \<longrightarrow> (\<not> isPathSafe cwd filename base
            \<longrightarrow> processFileIncludes cwd readFile content base depth
                  = Inl (InvalidFilePath filename))
        \<and> (isPathSafe cwd filename base
            \<longrightarrow> readFile (path_resolve cwd [base, filename]) = Inl ''ENOENT''
            \<longrightarrow> processFileIncludes cwd readFile content base depth
                  = Inl (FileNotFound filename))
        \<and> (isPathSafe cwd filename base
            \<longrightarrow> readFile (path_resolve cwd [base, filename]) = Inl code
            \<longrightarrow> code \<noteq> ''ENOENT''
            \<longrightarrow> processFileIncludes cwd readFile content base depth = Inl (SystemError code))
        \<and> (isPathSafe cwd filename base
            \<longrightarrow> readFile (path_resolve cwd [base, filename]) = Inr fileContent
            \<longrightarrow> fileContent \<noteq> [] \<longrightarrow> MAX_INCLUDE_DEPTH \<le> depth + 1
            \<longrightarrow> processFileIncludes cwd readFile content base depth = Inl DepthExceeded)
        \<and> (isPathSafe cwd filename base
            \<longrightarrow> readFile (path_resolve cwd [base, filename]) = Inr fileContent
            \<longrightarrow> processFileIncludes cwd readFile fileContent base (depth + 1) = Inl e
            \<longrightarrow> processFileIncludes cwd readFile content base depth = Inl e))
   \<and> (processFileIncludes cwd readFile content base depth = Inr out
      \<longrightarrow> (\<forall>m'\<in>set (matchAll True includePattern content).
             \<exists>name included resolved.
                m_group m' = Some name \<and> isPathSafe cwd name base
              \<and> readFile (path_resolve cwd [base, name]) = Inr included
              \<and> processFileIncludes cwd readFile included base (depth + 1) = Inr resolved))
   \<and> (body \<noteq> [] \<longrightarrow> matchAll False commandPattern body = cs1 @ c # cs2
      \<longrightarrow> bashLoop parse exec (bashOptions processCwd options) cs1 body w = (Inr r1, w1)
      \<longrightarrow> (validateCommand parse (commandStringOf c) = Inl t
            \<longrightarrow> processBashCommands parse exec processCwd body options w
                  = (Inl (TokenizerError t), w1))
        \<and> (validateCommand parse (commandStringOf c) = Inr v \<longrightarrow> \<not> allowed v
            \<longrightarrow> processBashCommands parse exec processCwd body options w
                  = (Inl (CommandNotAllowed (commandStringOf c)
                            (case error v of Some reason \<Rightarrow> reason | None \<Rightarrow> ''undefined'')), w1))
        \<and> (validateCommand parse (commandStringOf c) = Inr v \<longrightarrow> allowed v
            \<longrightarrow> exec w1 (command v) (args v) (bashOptions processCwd options)
                  = (Rejected killed msg, w2)
            \<longrightarrow> processBashCommands parse exec processCwd body options w
                  = (Inl (if killed then CommandTimeout (commandStringOf c)
                          else CommandFailed (commandStringOf c) msg), w2)))
   \<and> (processBashCommands parse exec processCwd body options w = (Inr out', w')
      \<longrightarrow> (\<forall>c'\<in>set (matchAll False commandPattern body).
             \<exists>v' wa stdout stderr wb.
                validateCommand parse (commandStringOf c') = Inr v' \<and> allowed v'
              \<and> exec wa (command v') (args v') (bashOptions processCwd options)
                  = (Resolved stdout stderr, wb)))"
proof -
  let ?rec = "\<lambda>fileContent. processFileIncludes cwd readFile fileContent base (depth + 1)"
  let ?o = "bashOptions processCwd options"
  have inc: "processFileIncludes cwd readFile content base depth = Inl x"
    if ctx: "content \<noteq> []" "depth < MAX_INCLUDE_DEPTH"
         "matchAll True includePattern content = ms1 @ m # ms2"
         "\<forall>m'\<in>set ms1. \<exists>r. resolveMarker cwd readFile ?rec base m' = Inr r"
      and fails: "resolveMarker cwd readFile ?rec base m = Inl x" for x
    using ctx fails by (simp add: processFileIncludes_loop includeLoop_first_failure)
  have cmd: "processBashCommands parse exec processCwd body options w = (Inl x, wx)"
    if ctx: "body \<noteq> []" "matchAll False commandPattern body = cs1 @ c # cs2"
         "bashLoop parse exec ?o cs1 body w = (Inr r1, w1)"
      and fails: "runCommand parse exec ?o c w1 = (Inl x, wx)" for x wx
    using ctx fails by (rule processBashCommands_first_failure)
  have I: "content \<noteq> [] \<longrightarrow> depth < MAX_INCLUDE_DEPTH
      \<longrightarrow> matchAll True includePattern content = ms1 @ m # ms2
      \<longrightarrow> (\<forall>m'\<in>set ms1. \<exists>r. resolveMarker cwd readFile ?rec base m' = Inr r)
      \<longrightarrow> m_group m = Some filename
      \<longrightarrow> (\<not> isPathSafe cwd filename base
            \<longrightarrow> processFileIncludes cwd readFile content base depth
                  = Inl (InvalidFilePath filename))
        \<and> (isPathSafe cwd filename base
            \<longrightarrow> readFile (path_resolve cwd [base, filename]) = Inl ''ENOENT''
            \<longrightarrow> processFileIncludes cwd readFile content base depth
                  = Inl (FileNotFound filename))
        \<and> (isPathSafe cwd filename base
            \<longrightarrow> readFile (path_resolve cwd [base, filename]) = Inl code
            \<longrightarrow> code \<noteq> ''ENOENT''
            \<longrightarrow> processFileIncludes cwd readFile content base depth = Inl (SystemError code))
        \<and> (isPathSafe cwd filename base
            \<longrightarrow> readFile (path_resolve cwd [base, filename]) = Inr fileContent
            \<longrightarrow> fileContent \<noteq> [] \<longrightarrow> MAX_INCLUDE_DEPTH \<le> depth + 1
            \<longrightarrow> processFileIncludes cwd readFile content base depth = Inl DepthExceeded)
        \<and> (isPathSafe cwd filename base
            \<longrightarrow> readFile (path_resolve cwd [base, filename]) = Inr fileContent
            \<longrightarrow> processFileIncludes cwd readFile fileContent base (depth + 1) = Inl e
            \<longrightarrow> processFileIncludes cwd readFile content base depth = Inl e)"
  proof (intro impI conjI)
    assume ctx: "content \<noteq> []" "depth < MAX_INCLUDE_DEPTH"
         "matchAll True includePattern content = ms1 @ m # ms2"
         "\<forall>m'\<in>set ms1. \<exists>r. resolveMarker cwd readFile ?rec base m' = Inr r"
      and g: "m_group m = Some filename"
    note abort = inc [OF ctx]
    {
      assume "\<not> isPathSafe cwd filename base"
      then show "processFileIncludes cwd readFile content base depth
                   = Inl (InvalidFilePath filename)"
        by (intro abort resolveMarker_unsafe g)
    }
    {
      assume "isPathSafe cwd filename base"
        "readFile (path_resolve cwd [base, filename]) = Inl ''ENOENT''"
      then show "processFileIncludes cwd readFile content base depth
                   = Inl (FileNotFound filename)"
        using resolveMarker_unreadable [OF g, of cwd base readFile "''ENOENT''" ?rec]
        by (intro abort) simp
    }
    {
      assume "isPathSafe cwd filename base"
        "readFile (path_resolve cwd [base, filename]) = Inl code" "code \<noteq> ''ENOENT''"
      then show "processFileIncludes cwd readFile content base depth = Inl (SystemError code)"
        using resolveMarker_unreadable [OF g, of cwd base readFile code ?rec]
        by (intro abort) simp
    }
    {
      assume s: "isPathSafe cwd filename base"
        and r: "readFile (path_resolve cwd [base, filename]) = Inr fileContent"
        and d: "fileContent \<noteq> []" "MAX_INCLUDE_DEPTH \<le> depth + 1"
      have "?rec fileContent = Inl DepthExceeded"
        using d by (rule processFileIncludes_too_deep)
      then have "resolveMarker cwd readFile ?rec base m = Inl DepthExceeded"
        using g s r by (simp add: resolveMarker_def)
      then show "processFileIncludes cwd readFile content base depth = Inl DepthExceeded"
        by (rule abort)
    }
    {
      assume s: "isPathSafe cwd filename base"
        and r: "readFile (path_resolve cwd [base, filename]) = Inr fileContent"
        and n: "processFileIncludes cwd readFile fileContent base (depth + 1) = Inl e"
      have "resolveMarker cwd readFile ?rec base m = Inl e"
        using g s r n by (simp add: resolveMarker_def)
      then show "processFileIncludes cwd readFile content base depth = Inl e"
        by (rule abort)
    }
  qed
  have II: "processFileIncludes cwd readFile content base depth = Inr out
      \<longrightarrow> (\<forall>m'\<in>set (matchAll True includePattern content).
             \<exists>name included resolved.
                m_group m' = Some name \<and> isPathSafe cwd name base
              \<and> readFile (path_resolve cwd [base, name]) = Inr included
              \<and> processFileIncludes cwd readFile included base (depth + 1) = Inr resolved)"
    by (rule impI) (rule processFileIncludes_Inr_all)
  have III: "body \<noteq> [] \<longrightarrow> matchAll False commandPattern body = cs1 @ c # cs2
      \<longrightarrow> bashLoop parse exec ?o cs1 body w = (Inr r1, w1)
      \<longrightarrow> (validateCommand parse (commandStringOf c) = Inl t
            \<longrightarrow> processBashCommands parse exec processCwd body options w
                  = (Inl (TokenizerError t), w1))
        \<and> (validateCommand parse (commandStringOf c) = Inr v \<longrightarrow> \<not> allowed v
            \<longrightarrow> processBashCommands parse exec processCwd body options w
                  = (Inl (CommandNotAllowed (commandStringOf c)
                            (case error v of Some reason \<Rightarrow> reason | None \<Rightarrow> ''undefined'')), w1))
        \<and> (validateCommand parse (commandStringOf c) = Inr v \<longrightarrow> allowed v
            \<longrightarrow> exec w1 (command v) (args v) ?o = (Rejected killed msg, w2)
            \<longrightarrow> processBashCommands parse exec processCwd body options w
                  = (Inl (if killed then CommandTimeout (commandStringOf c)
                          else CommandFailed (commandStringOf c) msg), w2))"
  proof (intro impI conjI)
    assume ctx: "body \<noteq> []" "matchAll False commandPattern body = cs1 @ c # cs2"
         "bashLoop parse exec ?o cs1 body w = (Inr r1, w1)"
    note abort = cmd [OF ctx]
    {
      assume "validateCommand parse (commandStringOf c) = Inl t"
      then show "processBashCommands parse exec processCwd body options w
                  = (Inl (TokenizerError t), w1)"
        by (intro abort runCommand_tokenizer)
    }
    {
      assume "validateCommand parse (commandStringOf c) = Inr v" "\<not> allowed v"
      then show "processBashCommands parse exec processCwd body options w
                  = (Inl (CommandNotAllowed (commandStringOf c)
                            (case error v of Some reason \<Rightarrow> reason | None \<Rightarrow> ''undefined'')), w1)"
        by (intro abort runCommand_disallowed)
    }
    {
      assume "validateCommand parse (commandStringOf c) = Inr v" "allowed v"
        "exec w1 (command v) (args v) ?o = (Rejected killed msg, w2)"
      then show "processBashCommands parse exec processCwd body options w
                  = (Inl (if killed then CommandTimeout (commandStringOf c)
                          else CommandFailed (commandStringOf c) msg), w2)"
        by (intro abort runCommand_rejected)
    }
  qed
  have IV: "processBashCommands parse exec processCwd body options w = (Inr out', w')
      \<longrightarrow> (\<forall>c'\<in>set (matchAll False commandPattern body).
             \<exists>v' wa stdout stderr wb.
                validateCommand parse (commandStringOf c') = Inr v' \<and> allowed v'
              \<and> exec wa (command v') (args v') ?o = (Resolved stdout stderr, wb))"
    by (rule impI) (rule processBashCommands_Inr_all)
  show ?thesis using I II III IV by (intro conjI)
qed


theorem expansion_aborts_on_failure_witness:
  "matchAll True includePattern ''@P @../x''
       = [\<lparr>m_index = 0, m_full = ''@P'', m_group = Some ''P''\<rparr>]
         @ \<lparr>m_index = 2, m_full = '' @../x'', m_group = Some ''../x''\<rparr> # []
   \<and> resolveMarker ''/srv'' chain4Files
        (\<lambda>fileContent. processFileIncludes ''/srv'' chain4Files fileContent ''/base'' (0 + 1))
        ''/base'' \<lparr>m_index = 0, m_full = ''@P'', m_group = Some ''P''\<rparr> = Inr ''done''
   \<and> \<not> isPathSafe ''/srv'' ''../x'' ''/base''
   \<and> processFileIncludes ''/srv'' chain4Files ''@P @../x'' ''/base'' 0
        = Inl (InvalidFilePath ''../x'')
   \<and> matchAll True includePattern ''@P @nofile''
       = [\<lparr>m_index = 0, m_full = ''@P'', m_group = Some ''P''\<rparr>]
         @ \<lparr>m_index = 2, m_full = '' @nofile'', m_group = Some ''nofile''\<rparr> # []
   \<and> isPathSafe ''/srv'' ''nofile'' ''/base''
   \<and> chain4Files (path_resolve ''/srv'' [''/base'', ''nofile'']) = Inl ''ENOENT''
   \<and> processFileIncludes ''/srv'' chain4Files ''@P @nofile'' ''/base'' 0
        = Inl (FileNotFound ''nofile'')
   \<and> matchAll True includePattern ''@locked''
       = [] @ \<lparr>m_index = 0, m_full = ''@locked'', m_group = Some ''locked''\<rparr> # []
   \<and> isPathSafe ''/srv'' ''locked'' ''/base''
   \<and> lockedFiles (path_resolve ''/srv'' [''/base'', ''locked'']) = Inl ''EACCES''
   \<and> processFileIncludes ''/srv'' lockedFiles ''@locked'' ''/base'' 0
        = Inl (SystemError ''EACCES'')
   \<and> matchAll True includePattern ''@Q''
       = [] @ \<lparr>m_index = 0, m_full = ''@Q'', m_group = Some ''Q''\<rparr> # []
   \<and> isPathSafe ''/srv'' ''Q'' ''/base''
   \<and> chain4Files (path_resolve ''/srv'' [''/base'', ''Q'']) = Inr ''done''
   \<and> 2 < MAX_INCLUDE_DEPTH \<and> MAX_INCLUDE_DEPTH \<le> 2 + 1
   \<and> processFileIncludes ''/srv'' chain4Files ''@Q'' ''/base'' 2 = Inl DepthExceeded
   \<and> matchAll True includePattern ''@B''
       = [] @ \<lparr>m_index = 0, m_full = ''@B'', m_group = Some ''B''\<rparr> # []
   \<and> isPathSafe ''/srv'' ''B'' ''/base''
   \<and> chain4Files (path_resolve ''/srv'' [''/base'', ''B'']) = Inr ''@C''
   \<and> processFileIncludes ''/srv'' chain4Files ''@C'' ''/base'' (0 + 1) = Inl DepthExceeded
   \<and> processFileIncludes ''/srv'' chain4Files ''@B'' ''/base'' 0 = Inl DepthExceeded
   \<and> processFileIncludes ''/srv'' chain4Files ''@P'' ''/base'' 0 = Inr ''done''
   \<and> list_all (\<lambda>m'. \<exists>name included resolved.
                  m_group m' = Some name \<and> isPathSafe ''/srv'' name ''/base''
                \<and> chain4Files (path_resolve ''/srv'' [''/base'', name]) = Inr included
                \<and> processFileIncludes ''/srv'' chain4Files included ''/base'' (0 + 1)
                    = Inr resolved)
        (matchAll True includePattern ''@P'')
   \<and> matchAll False commandPattern ''!echo ${x''
       = [] @ \<lparr>m_index = 0, m_full = ''!echo ${x'', m_group = Some ''echo ${x''\<rparr> # []
   \<and> validateCommand (shellQuoteParse (\<lambda>key. if key = [] then ''$'' else [])) ''echo ${x''
       = Inl ''Bad substitution: x''
   \<and> processBashCommands (shellQuoteParse (\<lambda>key. if key = [] then ''$'' else [])) exampleExec
        ''/srv'' ''!echo ${x'' (None, None) 0
        = (Inl (TokenizerError ''Bad substitution: x''), 0)
   \<and> matchAll False commandPattern (''!echo hi'' @ [CHR 0x0A] @ ''!rm x'')
       = [\<lparr>m_index = 0, m_full = ''!echo hi'', m_group = Some ''echo hi''\<rparr>]
         @ \<lparr>m_index = 8, m_full = CHR 0x0A # ''!rm x'', m_group = Some ''rm x''\<rparr> # []
   \<and> bashLoop (shellQuoteParse (\<lambda>k. [])) exampleExec (bashOptions ''/srv'' (None, None))
        [\<lparr>m_index = 0, m_full = ''!echo hi'', m_group = Some ''echo hi''\<rparr>]
        (''!echo hi'' @ [CHR 0x0A] @ ''!rm x'') 0
        = (Inr (''hi'' @ [CHR 0x0A, CHR 0x0A] @ ''!rm x''), 1)
   \<and> validateCommand (shellQuoteParse (\<lambda>k. [])) ''rm x''
       = Inr \<lparr>allowed = False, command = ''rm'', args = [''x''],
              error = Some (''Command '' @ [SQ] @ ''rm'' @ [SQ] @ '' is not in the allowlist'')\<rparr>
   \<and> processBashCommands (shellQuoteParse (\<lambda>k. [])) exampleExec ''/srv''
        (''!echo hi'' @ [CHR 0x0A] @ ''!rm x'') (None, None) 0
        = (Inl (CommandNotAllowed ''rm x''
                 (''Command '' @ [SQ] @ ''rm'' @ [SQ] @ '' is not in the allowlist'')), 1)
   \<and> matchAll False commandPattern (''!echo hi'' @ [CHR 0x0A] @ ''!ls -la'')
       = [\<lparr>m_index = 0, m_full = ''!echo hi'', m_group = Some ''echo hi''\<rparr>]
         @ \<lparr>m_index = 8, m_full = CHR 0x0A # ''!ls -la'', m_group = Some ''ls -la''\<rparr> # []
   \<and> bashLoop (shellQuoteParse (\<lambda>k. [])) exampleExec (bashOptions ''/srv'' (None, None))
        [\<lparr>m_index = 0, m_full = ''!echo hi'', m_group = Some ''echo hi''\<rparr>]
        (''!echo hi'' @ [CHR 0x0A] @ ''!ls -la'') 0
        = (Inr (''hi'' @ [CHR 0x0A, CHR 0x0A] @ ''!ls -la''), 1)
   \<and> validateCommand (shellQuoteParse (\<lambda>k. [])) ''ls -la''
       = Inr \<lparr>allowed = True, command = ''ls'', args = [''-la''], error = None\<rparr>
   \<and> exampleExec 1 ''ls'' [''-la''] (bashOptions ''/srv'' (None, None))
       = (Rejected False ''Command failed: ls'', 2)
   \<and> processBashCommands (shellQuoteParse (\<lambda>k. [])) exampleExec ''/srv''
        (''!echo hi'' @ [CHR 0x0A] @ ''!ls -la'') (None, None) 0
        = (Inl (CommandFailed ''ls -la'' ''Command failed: ls''), 2)
   \<and> processBashCommands (shellQuoteParse (\<lambda>k. [])) exampleExec ''/srv'' ''!echo hi''
        (None, None) 0 = (Inr (''hi'' @ [CHR 0x0A]), 1)
   \<and> list_all (\<lambda>c'. \<exists>v' wa stdout stderr wb.
                  validateCommand (shellQuoteParse (\<lambda>k. [])) (commandStringOf c') = Inr v'
                \<and> allowed v'
                \<and> exampleExec wa (command v') (args v') (bashOptions ''/srv'' (None, None))
                    = (Resolved stdout stderr, wb))
        (matchAll False commandPattern ''!echo hi'')"
proof -
  let ?rec = "\<lambda>fileContent. processFileIncludes ''/srv'' chain4Files fileContent ''/base'' (0 + 1)"
  let ?mP = "\<lparr>m_index = 0, m_full = ''@P'', m_group = Some ''P''\<rparr>"
  let ?mx = "\<lparr>m_index = 2, m_full = '' @../x'', m_group = Some ''../x''\<rparr>"
  let ?mn = "\<lparr>m_index = 2, m_full = '' @nofile'', m_group = Some ''nofile''\<rparr>"
  let ?ml = "\<lparr>m_index = 0, m_full = ''@locked'', m_group = Some ''locked''\<rparr>"
  let ?mQ = "\<lparr>m_index = 0, m_full = ''@Q'', m_group = Some ''Q''\<rparr>"
  let ?mB = "\<lparr>m_index = 0, m_full = ''@B'', m_group = Some ''B''\<rparr>"
  let ?p = "shellQuoteParse (\<lambda>k. [])"
  let ?pe = "shellQuoteParse (\<lambda>key. if key = [] then ''$'' else [])"
  let ?o = "bashOptions ''/srv'' (None, None)"
  let ?c1 = "\<lparr>m_index = 0, m_full = ''!echo hi'', m_group = Some ''echo hi''\<rparr>"
  let ?cr = "\<lparr>m_index = 8, m_full = CHR 0x0A # ''!rm x'', m_group = Some ''rm x''\<rparr>"
  let ?cl = "\<lparr>m_index = 8, m_full = CHR 0x0A # ''!ls -la'', m_group = Some ''ls -la''\<rparr>"
  let ?cx = "\<lparr>m_index = 0, m_full = ''!echo ${x'', m_group = Some ''echo ${x''\<rparr>"
  let ?vr = "\<lparr>allowed = False, command = ''rm'', args = [''x''],
              error = Some (''Command '' @ [SQ] @ ''rm'' @ [SQ] @ '' is not in the allowlist'')\<rparr>"
  let ?vl = "\<lparr>allowed = True, command = ''ls'', args = [''-la''], error = None\<rparr>"
  note incl = expansion_aborts_on_failure [THEN conjunct1]
  note returned = expansion_aborts_on_failure [THEN conjunct2, THEN conjunct1]
  note commands = expansion_aborts_on_failure [THEN conjunct2, THEN conjunct2, THEN conjunct1]
  note ran = expansion_aborts_on_failure [THEN conjunct2, THEN conjunct2, THEN conjunct2]
  have d0: "0 < MAX_INCLUDE_DEPTH" by (simp add: MAX_INCLUDE_DEPTH_def)
  have none0: "\<forall>m'\<in>set []. \<exists>r. resolveMarker ''/srv'' chain4Files ?rec ''/base'' m' = Inr r"
    by simp
  have none2: "\<forall>m'\<in>set []. \<exists>r. resolveMarker ''/srv'' chain4Files
      (\<lambda>fileContent. processFileIncludes ''/srv'' chain4Files fileContent ''/base'' (2 + 1))
      ''/base'' m' = Inr r"
    by simp
  have noneL: "\<forall>m'\<in>set []. \<exists>r. resolveMarker ''/srv'' lockedFiles
      (\<lambda>fileContent. processFileIncludes ''/srv'' lockedFiles fileContent ''/base'' (0 + 1))
      ''/base'' m' = Inr r"
    by simp
  have rP: "resolveMarker ''/srv'' chain4Files ?rec ''/base'' ?mP = Inr ''done''" by code_simp
  have rP': "\<forall>m'\<in>set [?mP]. \<exists>r. resolveMarker ''/srv'' chain4Files ?rec ''/base'' m' = Inr r"
    using rP by simp

  have x1: "''@P @../x'' \<noteq> []" by simp
  have x2: "matchAll True includePattern ''@P @../x'' = [?mP] @ ?mx # []" by code_simp
  have x3: "m_group ?mx = Some ''../x''" by simp
  have x4: "\<not> isPathSafe ''/srv'' ''../x'' ''/base''" by code_simp
  have x5: "processFileIncludes ''/srv'' chain4Files ''@P @../x'' ''/base'' 0
              = Inl (InvalidFilePath ''../x'')"
    by (rule incl [THEN mp, OF x1, THEN mp, OF d0, THEN mp, OF x2, THEN mp, OF rP',
                       THEN mp, OF x3, THEN conjunct1, THEN mp, OF x4])

  have n1: "''@P @nofile'' \<noteq> []" by simp
  have n2: "matchAll True includePattern ''@P @nofile'' = [?mP] @ ?mn # []" by code_simp
  have n3: "m_group ?mn = Some ''nofile''" by simp
  have n4: "isPathSafe ''/srv'' ''nofile'' ''/base''" by code_simp
  have n5: "chain4Files (path_resolve ''/srv'' [''/base'', ''nofile'']) = Inl ''ENOENT''"
    by code_simp
  have n6: "processFileIncludes ''/srv'' chain4Files ''@P @nofile'' ''/base'' 0
              = Inl (FileNotFound ''nofile'')"
    by (rule incl [THEN mp, OF n1, THEN mp, OF d0, THEN mp, OF n2, THEN mp, OF rP',
                       THEN mp, OF n3, THEN conjunct2, THEN conjunct1,
                       THEN mp, OF n4, THEN mp, OF n5])

  have l1: "''@locked'' \<noteq> []" by simp
  have l2: "matchAll True includePattern ''@locked'' = [] @ ?ml # []" by code_simp
  have l3: "m_group ?ml = Some ''locked''" by simp
  have l4: "isPathSafe ''/srv'' ''locked'' ''/base''" by code_simp
  have l5: "lockedFiles (path_resolve ''/srv'' [''/base'', ''locked'']) = Inl ''EACCES''"
    by code_simp
  have l6: "''EACCES'' \<noteq> ''ENOENT''" by simp
  have l7: "processFileIncludes ''/srv'' lockedFiles ''@locked'' ''/base'' 0
              = Inl (SystemError ''EACCES'')"
    by (rule incl [THEN mp, OF l1, THEN mp, OF d0, THEN mp, OF l2, THEN mp, OF noneL,
                       THEN mp, OF l3, THEN conjunct2, THEN conjunct2, THEN conjunct1,
                       THEN mp, OF l4, THEN mp, OF l5, THEN mp, OF l6])

  have q1: "''@Q'' \<noteq> []" by simp
  have q2: "matchAll True includePattern ''@Q'' = [] @ ?mQ # []" by code_simp
  have q3: "m_group ?mQ = Some ''Q''" by simp
  have q4: "isPathSafe ''/srv'' ''Q'' ''/base''" by code_simp
  have q5: "chain4Files (path_resolve ''/srv'' [''/base'', ''Q'']) = Inr ''done''" by code_simp
  have q6: "''done'' \<noteq> []" by simp
  have q7: "2 < MAX_INCLUDE_DEPTH" by (simp add: MAX_INCLUDE_DEPTH_def)
  have q8: "MAX_INCLUDE_DEPTH \<le> 2 + 1" by (simp add: MAX_INCLUDE_DEPTH_def)
  have q9: "processFileIncludes ''/srv'' chain4Files ''@Q'' ''/base'' 2 = Inl DepthExceeded"
    by (rule incl [THEN mp, OF q1, THEN mp, OF q7, THEN mp, OF q2, THEN mp, OF none2,
                       THEN mp, OF q3, THEN conjunct2, THEN conjunct2, THEN conjunct2,
                       THEN conjunct1, THEN mp, OF q4, THEN mp, OF q5, THEN mp, OF q6,
                       THEN mp, OF q8])

  have b1: "''@B'' \<noteq> []" by simp
  have b2: "matchAll True includePattern ''@B'' = [] @ ?mB # []" by code_simp
  have b3: "m_group ?mB = Some ''B''" by simp
  have b4: "isPathSafe ''/srv'' ''B'' ''/base''" by code_simp
  have b5: "chain4Files (path_resolve ''/srv'' [''/base'', ''B'']) = Inr ''@C''" by code_simp
  have b6: "processFileIncludes ''/srv'' chain4Files ''@C'' ''/base'' (0 + 1) = Inl DepthExceeded"
    by code_simp
  have b7: "processFileIncludes ''/srv'' chain4Files ''@B'' ''/base'' 0 = Inl DepthExceeded"
    by (rule incl [THEN mp, OF b1, THEN mp, OF d0, THEN mp, OF b2, THEN mp, OF none0,
                       THEN mp, OF b3, THEN conjunct2, THEN conjunct2, THEN conjunct2,
                       THEN conjunct2, THEN mp, OF b4, THEN mp, OF b5, THEN mp, OF b6])

  have p1: "processFileIncludes ''/srv'' chain4Files ''@P'' ''/base'' 0 = Inr ''done''"
    by code_simp
  have p2: "list_all (\<lambda>m'. \<exists>name included resolved.
                  m_group m' = Some name \<and> isPathSafe ''/srv'' name ''/base''
                \<and> chain4Files (path_resolve ''/srv'' [''/base'', name]) = Inr included
                \<and> processFileIncludes ''/srv'' chain4Files included ''/base'' (0 + 1)
                    = Inr resolved)
        (matchAll True includePattern ''@P'')"
    using returned [THEN mp, OF p1] by (simp only: list_all_iff)

  have t1: "''!echo ${x'' \<noteq> []" by simp
  have t2: "matchAll False commandPattern ''!echo ${x'' = [] @ ?cx # []" by code_simp
  have t3: "bashLoop ?pe exampleExec ?o [] ''!echo ${x'' 0 = (Inr ''!echo ${x'', 0)" by simp
  have tc: "commandStringOf ?cx = ''echo ${x''" by code_simp
  have t4: "validateCommand ?pe ''echo ${x'' = Inl ''Bad substitution: x''" by code_simp
  have t4': "validateCommand ?pe (commandStringOf ?cx) = Inl ''Bad substitution: x''"
    by (simp only: tc t4)
  have t5: "processBashCommands ?pe exampleExec ''/srv'' ''!echo ${x'' (None, None) 0
              = (Inl (TokenizerError ''Bad substitution: x''), 0)"
    by (rule commands [THEN mp, OF t1, THEN mp, OF t2, THEN mp, OF t3, THEN conjunct1,
                       THEN mp, OF t4'])

  let ?br = "''!echo hi'' @ [CHR 0x0A] @ ''!rm x''"
  have r1: "?br \<noteq> []" by simp
  have r2: "matchAll False commandPattern ?br = [?c1] @ ?cr # []" by code_simp
  have rr: "replaceFirst ''!echo hi'' (''hi'' @ [CHR 0x0A]) ?br
              = ''hi'' @ [CHR 0x0A, CHR 0x0A] @ ''!rm x''" by code_simp
  have r3: "bashLoop ?p exampleExec ?o [?c1] ?br 0
              = (Inr (''hi'' @ [CHR 0x0A, CHR 0x0A] @ ''!rm x''), 1)"
    using rr by (simp add: example_echo)
  have rc: "commandStringOf ?cr = ''rm x''" by code_simp
  have r4: "validateCommand ?p ''rm x'' = Inr ?vr" by code_simp
  have r4': "validateCommand ?p (commandStringOf ?cr) = Inr ?vr" by (simp only: rc r4)
  have r5: "\<not> allowed ?vr" by simp
  have r6: "processBashCommands ?p exampleExec ''/srv'' ?br (None, None) 0
              = (Inl (CommandNotAllowed ''rm x''
                       (''Command '' @ [SQ] @ ''rm'' @ [SQ] @ '' is not in the allowlist'')), 1)"
    using commands [THEN mp, OF r1, THEN mp, OF r2, THEN mp, OF r3, THEN conjunct2,
                    THEN conjunct1, THEN mp, OF r4', THEN mp, OF r5]
    by (simp add: rc)

  let ?bl = "''!echo hi'' @ [CHR 0x0A] @ ''!ls -la''"
  have s1: "?bl \<noteq> []" by simp
  have s2: "matchAll False commandPattern ?bl = [?c1] @ ?cl # []" by code_simp
  have sr: "replaceFirst ''!echo hi'' (''hi'' @ [CHR 0x0A]) ?bl
              = ''hi'' @ [CHR 0x0A, CHR 0x0A] @ ''!ls -la''" by code_simp
  have s3: "bashLoop ?p exampleExec ?o [?c1] ?bl 0
              = (Inr (''hi'' @ [CHR 0x0A, CHR 0x0A] @ ''!ls -la''), 1)"
    using sr by (simp add: example_echo)
  have sc: "commandStringOf ?cl = ''ls -la''" by code_simp
  have s4: "validateCommand ?p ''ls -la'' = Inr ?vl" by code_simp
  have s4': "validateCommand ?p (commandStringOf ?cl) = Inr ?vl" by (simp only: sc s4)
  have s5: "allowed ?vl" by simp
  have s6: "exampleExec 1 ''ls'' [''-la''] ?o = (Rejected False ''Command failed: ls'', 2)"
    by (simp add: exampleExec_def)
  have s6': "exampleExec 1 (command ?vl) (args ?vl) ?o = (Rejected False ''Command failed: ls'', 2)"
    using s6 by simp
  have s7: "processBashCommands ?p exampleExec ''/srv'' ?bl (None, None) 0
              = (Inl (CommandFailed ''ls -la'' ''Command failed: ls''), 2)"
    using commands [THEN mp, OF s1, THEN mp, OF s2, THEN mp, OF s3, THEN conjunct2,
                    THEN conjunct2, THEN mp, OF s4', THEN mp, OF s5, THEN mp, OF s6']
    by (simp add: sc)

  have e0: "matchAll False commandPattern ''!echo hi'' = [?c1]" by code_simp
  have e1: "processBashCommands ?p exampleExec ''/srv'' ''!echo hi'' (None, None) 0
              = (Inr (''hi'' @ [CHR 0x0A]), 1)"
  proof -
    have "replaceFirst ''!echo hi'' (''hi'' @ [CHR 0x0A]) ''!echo hi'' = ''hi'' @ [CHR 0x0A]"
      by code_simp
    then show ?thesis
      by (simp add: processBashCommands_def Let_def e0 example_echo)
  qed
  have e2: "list_all (\<lambda>c'. \<exists>v' wa stdout stderr wb.
                  validateCommand ?p (commandStringOf c') = Inr v'
                \<and> allowed v'
                \<and> exampleExec wa (command v') (args v') ?o = (Resolved stdout stderr, wb))
        (matchAll False commandPattern ''!echo hi'')"
    using ran [THEN mp, OF e1] by (simp only: list_all_iff)
  show ?thesis
    by (intro conjI x2 rP x4 x5 n2 n4 n5 n6 l2 l4 l5 l7 q2 q4 q5 q7 q8 q9 b2 b4 b5 b6 b7
              p1 p2 t2 t4 t5 r2 r3 r4 r6 s2 s3 s4 s6 s7 e1 e2)
qed


text \<open>
  Claim C8. When the command of a marker has passed validation and its execution is
  rejected, the call throws the timeout error with the command line if the runtime killed
  the child at the timeout, and otherwise the failure error with the command line and the
  message of the runtime; the two errors differ, and so do their messages.
\<close>

theorem execution_failure_classification:
  assumes "body \<noteq> []" "matchAll False commandPattern body = cs1 @ c # cs2"
    "bashLoop parse exec (bashOptions processCwd options) cs1 body w = (Inr r1, w1)"
    "validateCommand parse (commandStringOf c) = Inr v" "allowed v"
    "exec w1 (command v) (args v) (bashOptions processCwd options) = (Rejected killed msg, w2)"
  shows "processBashCommands parse exec processCwd body options w =
           (Inl (if killed then CommandTimeout (commandStringOf c)
                 else CommandFailed (commandStringOf c) msg), w2)
       \<and> CommandTimeout (commandStringOf c) \<noteq> CommandFailed (commandStringOf c) msg
       \<and> message (CommandTimeout (commandStringOf c))
           \<noteq> message (CommandFailed (commandStringOf c) msg)"
proof -
  have "runCommand parse exec (bashOptions processCwd options) c w1 =
          (Inl (if killed then CommandTimeout (commandStringOf c)
                else CommandFailed (commandStringOf c) msg), w2)"
    using assms(4-6) by (rule runCommand_rejected)
  then have "processBashCommands parse exec processCwd body options w =
           (Inl (if killed then CommandTimeout (commandStringOf c)
                 else CommandFailed (commandStringOf c) msg), w2)"
    using assms(1-3) by (intro processBashCommands_first_failure)
  then show ?thesis by simp
qed

theorem execution_failure_classification_witness:
  "''!node loop.js'' \<noteq> []
   \<and> matchAll False commandPattern ''!node loop.js''
       = [] @ \<lparr>m_index = 0, m_full = ''!node loop.js'', m_group = Some ''node loop.js''\<rparr> # []
   \<and> validateCommand (shellQuoteParse (\<lambda>k. [])) ''node loop.js''
       = Inr \<lparr>allowed = True, command = ''node'', args = [''loop.js''], error = None\<rparr>
   \<and> exampleExec 0 ''node'' [''loop.js''] (bashOptions ''/srv'' (None, None))
       = (Rejected True ''Command failed: node'', 1)
   \<and> processBashCommands (shellQuoteParse (\<lambda>k. [])) exampleExec ''/srv'' ''!node loop.js''
        (None, None) 0 = (Inl (CommandTimeout ''node loop.js''), 1)
   \<and> validateCommand (shellQuoteParse (\<lambda>k. [])) ''ls -la''
       = Inr \<lparr>allowed = True, command = ''ls'', args = [''-la''], error = None\<rparr>
   \<and> exampleExec 0 ''ls'' [''-la''] (bashOptions ''/srv'' (None, None))
       = (Rejected False ''Command failed: ls'', 1)
   \<and> processBashCommands (shellQuoteParse (\<lambda>k. [])) exampleExec ''/srv'' ''!ls -la''
        (None, None) 0 = (Inl (CommandFailed ''ls -la'' ''Command failed: ls''), 1)"
proof -
  let ?p = "shellQuoteParse (\<lambda>k. [])"
  let ?o = "bashOptions ''/srv'' (None, None)"
  let ?n = "\<lparr>m_index = 0, m_full = ''!node loop.js'', m_group = Some ''node loop.js''\<rparr>"
  let ?l = "\<lparr>m_index = 0, m_full = ''!ls -la'', m_group = Some ''ls -la''\<rparr>"
  let ?vn = "\<lparr>allowed = True, command = ''node'', args = [''loop.js''], error = None\<rparr>"
  let ?vl = "\<lparr>allowed = True, command = ''ls'', args = [''-la''], error = None\<rparr>"
  have n1: "''!node loop.js'' \<noteq> []" by simp
  have n2: "matchAll False commandPattern ''!node loop.js'' = [] @ ?n # []" by code_simp
  have n3: "bashLoop ?p exampleExec ?o [] ''!node loop.js'' 0 = (Inr ''!node loop.js'', 0)"
    by simp
  have nc: "commandStringOf ?n = ''node loop.js''" by code_simp
  have n4: "validateCommand ?p ''node loop.js'' = Inr ?vn" by code_simp
  have n4': "validateCommand ?p (commandStringOf ?n) = Inr ?vn" by (simp only: nc n4)
  have n5: "allowed ?vn" by simp
  have n6: "exampleExec 0 ''node'' [''loop.js''] ?o = (Rejected True ''Command failed: node'', 1)"
    by (simp add: exampleExec_def)
  have n6': "exampleExec 0 (command ?vn) (args ?vn) ?o = (Rejected True ''Command failed: node'', 1)"
    using n6 by simp
  have n7: "processBashCommands ?p exampleExec ''/srv'' ''!node loop.js'' (None, None) 0
              = (Inl (CommandTimeout ''node loop.js''), 1)"
    using execution_failure_classification
            [OF n1 n2 n3 n4' n5 n6'] by (simp add: nc)
  have l1: "''!ls -la'' \<noteq> []" by simp
  have l2: "matchAll False commandPattern ''!ls -la'' = [] @ ?l # []" by code_simp
  have l3: "bashLoop ?p exampleExec ?o [] ''!ls -la'' 0 = (Inr ''!ls -la'', 0)" by simp
  have lc: "commandStringOf ?l = ''ls -la''" by code_simp
  have l4: "validateCommand ?p ''ls -la'' = Inr ?vl" by code_simp
  have l4': "validateCommand ?p (commandStringOf ?l) = Inr ?vl" by (simp only: lc l4)
  have l5: "allowed ?vl" by simp
  have l6: "exampleExec 0 ''ls'' [''-la''] ?o = (Rejected False ''Command failed: ls'', 1)"
    by (simp add: exampleExec_def)
  have l6': "exampleExec 0 (command ?vl) (args ?vl) ?o = (Rejected False ''Command failed: ls'', 1)"
    using l6 by simp
  have l7: "processBashCommands ?p exampleExec ''/srv'' ''!ls -la'' (None, None) 0
              = (Inl (CommandFailed ''ls -la'' ''Command failed: ls''), 1)"
    using execution_failure_classification
            [OF l1 l2 l3 l4' l5 l6'] by (simp add: lc)
  show ?thesis by (intro conjI n1 n2 n4 n6 n7 l4 l6 l7)
qed

section \<open>The whitespace before a marker\<close>

text \<open>What the example environment makes of \<^verbatim>\<open>!echo hi\<close> on a line of its own, after a newline.\<close>

lemma example_echo_newline:
  "runCommand (shellQuoteParse (\<lambda>k. [])) exampleExec opts
     \<lparr>m_index = 3, m_full = CHR 0x0A # ''!echo hi'', m_group = Some ''echo hi''\<rparr> w
   = (Inr (CHR 0x0A # ''hi'' @ [CHR 0x0A]), Suc w)"
proof -
  have c: "commandStringOf \<lparr>m_index = 3, m_full = CHR 0x0A # ''!echo hi'', m_group = Some ''echo hi''\<rparr>
             = ''echo hi''" by code_simp
  have v: "validateCommand (shellQuoteParse (\<lambda>k. [])) ''echo hi'' =
             Inr \<lparr>allowed = True, command = ''echo'', args = [''hi''], error = None\<rparr>"
    by code_simp
  have s: "sanitizeOutput of_char (''hi'' @ [CHR 0x0A]) = ''hi'' @ [CHR 0x0A]"
    by (simp add: sanitizeOutput_as_filter)
  have e: "exampleExec w ''echo'' [''hi''] opts = (Resolved (''hi'' @ [CHR 0x0A]) [], Suc w)"
    by (simp add: exampleExec_def)
  have sw: "startsWith (CHR 0x0A # ''!echo hi'') [CHR 0x0A] = True" by code_simp
  show ?thesis
    using s by (simp add: runCommand_def Let_def c v e sw)
qed

lemma example_echo_after_line:
  "processBashCommands (shellQuoteParse (\<lambda>k. [])) exampleExec ''/srv''
     (''see'' @ [CHR 0x0A] @ ''!echo hi'') (None, None) 0
   = (Inr (''see'' @ [CHR 0x0A] @ ''hi'' @ [CHR 0x0A]), 1)"
proof -
  have m: "matchAll False commandPattern (''see'' @ [CHR 0x0A] @ ''!echo hi'')
             = [\<lparr>m_index = 3, m_full = CHR 0x0A # ''!echo hi'', m_group = Some ''echo hi''\<rparr>]"
    by code_simp
  have r: "replaceFirst (CHR 0x0A # ''!echo hi'') (CHR 0x0A # ''hi'' @ [CHR 0x0A])
             (''see'' @ [CHR 0x0A] @ ''!echo hi'') = ''see'' @ [CHR 0x0A] @ ''hi'' @ [CHR 0x0A]"
    by code_simp
  show ?thesis
    using m r by (simp add: processBashCommands_def Let_def example_echo_newline)
qed

text \<open>
  Claim C7. The code departs from the claim where the whitespace before the marker is not a
  space. The include pattern takes any whitespace character before \<^verbatim>\<open>@\<close> into the match,
  and line 133 puts back a space only when the match begins with the space character: with
  the file \<^verbatim>\<open>notes.txt\<close> holding \<^verbatim>\<open>done\<close>, the bodies \<^verbatim>\<open>see<TAB>@notes.txt\<close> and
  \<^verbatim>\<open>see<LF>@notes.txt\<close> both become \<^verbatim>\<open>seedone\<close>, with neither the space the claim
  promises nor the character that was there, while \<^verbatim>\<open>see @notes.txt\<close> becomes
  \<^verbatim>\<open>see done\<close>. Command expansion, the sibling loop, puts the newline of its match back:
  \<^verbatim>\<open>see<LF>!echo hi\<close> becomes \<^verbatim>\<open>see<LF>hi<LF>\<close>.
\<close>

theorem include_drops_leading_whitespace:
  "processFileIncludes ''/srv'' notesFiles (''see'' @ [CHR 0x09] @ ''@notes.txt'') ''/base'' 0
     = Inr ''seedone''
   \<and> processFileIncludes ''/srv'' notesFiles (''see'' @ [CHR 0x0A] @ ''@notes.txt'') ''/base'' 0
     = Inr ''seedone''
   \<and> processFileIncludes ''/srv'' notesFiles ''see @notes.txt'' ''/base'' 0 = Inr ''see done''
   \<and> processBashCommands (shellQuoteParse (\<lambda>k. [])) exampleExec ''/srv''
        (''see'' @ [CHR 0x0A] @ ''!echo hi'') (None, None) 0
     = (Inr (''see'' @ [CHR 0x0A] @ ''hi'' @ [CHR 0x0A]), 1)"
proof -
  have t: "processFileIncludes ''/srv'' notesFiles (''see'' @ [CHR 0x09] @ ''@notes.txt'') ''/base'' 0
     = Inr ''seedone''" by code_simp
  have n: "processFileIncludes ''/srv'' notesFiles (''see'' @ [CHR 0x0A] @ ''@notes.txt'') ''/base'' 0
     = Inr ''seedone''" by code_simp
  have sp: "processFileIncludes ''/srv'' notesFiles ''see @notes.txt'' ''/base'' 0 = Inr ''see done''"
    by code_simp
  show ?thesis by (intro conjI t n sp example_echo_after_line)
qed

section \<open>Properties of argument substitution\<close>

lemma digit_chars: "1 \<le> i \<Longrightarrow> i \<le> 9 \<Longrightarrow> digitChar i \<in> set ''123456789''"
proof -
  assume "1 \<le> i" "i \<le> 9"
  then have "i \<in> {1, 2, 3, 4, 5, 6, 7, 8, 9}" by auto
  then show ?thesis unfolding digitChar_def by auto
qed

lemma digit_inj:
  assumes "1 \<le> i" "i \<le> 9" "1 \<le> j" "j \<le> 9" "digitChar i = digitChar j"
  shows "i = j"
proof -
  have d: "distinct ''0123456789''" by simp
  have "i < length ''0123456789''" "j < length ''0123456789''" using assms by simp_all
  then show ?thesis using assms(5) d unfolding digitChar_def by (simp only: nth_eq_iff_index_eq)
qed

lemma digit_not_dollar: "1 \<le> i \<Longrightarrow> i \<le> 9 \<Longrightarrow> digitChar i \<noteq> CHR ''$''"
  using digit_chars [of i] by auto

lemma digit_not_A: "1 \<le> i \<Longrightarrow> i \<le> 9 \<Longrightarrow> digitChar i \<noteq> CHR ''A''"
  using digit_chars [of i] by auto

text \<open>
  A placeholder is a dollar sign, a character that tells it from the other placeholders,
  and no further dollar sign.
\<close>

lemma placeholder_shape:
  assumes "wellFormed p" "isPlaceholder p"
  shows "pieceText p = CHR ''$'' # mark p # tail p" and "CHR ''$'' \<notin> set (mark p # tail p)"
proof -
  show "pieceText p = CHR ''$'' # mark p # tail p"
  proof (cases p)
    case (Text t)
    then show ?thesis using assms(2) by simp
  next
    case AllArguments
    then show ?thesis by simp
  next
    case (Positional i)
    then show ?thesis by (simp add: placeholder_def)
  qed
  show "CHR ''$'' \<notin> set (mark p # tail p)"
  proof (cases p)
    case (Text t)
    then show ?thesis using assms(2) by simp
  next
    case AllArguments
    then show ?thesis by simp
  next
    case (Positional i)
    then have "digitChar i \<noteq> CHR ''$''" using assms(1) by (simp add: digit_not_dollar)
    then show ?thesis using Positional by simp
  qed
qed

lemma mark_inj:
  assumes "wellFormed p" "isPlaceholder p" "wellFormed q" "isPlaceholder q" "mark p = mark q"
  shows "p = q"
proof (cases p)
  case (Text t)
  then show ?thesis using assms by simp
next
  case AllArguments
  then show ?thesis using assms digit_not_A by (cases q) auto
next
  case (Positional i)
  then show ?thesis using assms digit_not_A [of i] digit_inj [of i] by (cases q) auto
qed


text \<open>One global replacement, over a text of pieces.\<close>

lemma replaceAll_skip_text:
  "CHR ''$'' \<notin> set t \<Longrightarrow>
   replaceAllFrom (CHR ''$'' # r) repl b (t @ rest) = t @ replaceAllFrom (CHR ''$'' # r) repl (b @ t) rest"
proof (induction t arbitrary: b)
  case Nil
  show ?case by simp
next
  case (Cons c t)
  have c: "c \<noteq> CHR ''$''" and t: "CHR ''$'' \<notin> set t" using Cons.prems by auto
  have "replaceAllFrom (CHR ''$'' # r) repl b ((c # t) @ rest)
          = c # replaceAllFrom (CHR ''$'' # r) repl (b @ [c]) (t @ rest)"
    using c by simp
  also have "\<dots> = c # t @ replaceAllFrom (CHR ''$'' # r) repl ((b @ [c]) @ t) rest"
    by (simp only: Cons.IH [OF t])
  finally show ?case by simp
qed

lemma replaceAll_hit:
  assumes "CHR ''$'' \<notin> set repl"
  shows "replaceAllFrom (c # r) repl b ((c # r) @ rest)
           = repl @ replaceAllFrom (c # r) repl (b @ c # r) rest"
  using getSubstitution_plain [OF assms] by simp

lemma replaceAll_miss:
  assumes "m1 \<noteq> m2" "CHR ''$'' \<notin> set (m2 # t2)"
  shows "replaceAllFrom (CHR ''$'' # m1 # t1) repl b ((CHR ''$'' # m2 # t2) @ rest)
           = (CHR ''$'' # m2 # t2) @ replaceAllFrom (CHR ''$'' # m1 # t1) repl (b @ CHR ''$'' # m2 # t2) rest"
proof -
  have "replaceAllFrom (CHR ''$'' # m1 # t1) repl b ((CHR ''$'' # m2 # t2) @ rest)
          = CHR ''$'' # replaceAllFrom (CHR ''$'' # m1 # t1) repl (b @ ''$'') ((m2 # t2) @ rest)"
    using assms(1) by simp
  also have "\<dots> = CHR ''$'' # (m2 # t2) @ replaceAllFrom (CHR ''$'' # m1 # t1) repl ((b @ ''$'') @ m2 # t2) rest"
    by (simp only: replaceAll_skip_text [OF assms(2)])
  finally show ?thesis by simp
qed

lemma render_Cons: "render (p # ps) = pieceText p @ render ps"
  by (simp add: render_def)

lemma replaceAll_pass:
  assumes q: "wellFormed q" "isPlaceholder q" and repl: "CHR ''$'' \<notin> set repl"
  shows "\<forall>p\<in>set ps. wellFormed p \<Longrightarrow>
         replaceAllFrom (pieceText q) repl b (render ps) = render (map (fill q repl) ps)"
proof (induction ps arbitrary: b)
  case Nil
  show ?case by (simp add: render_def)
next
  case (Cons p ps)
  have wf: "wellFormed p" and rest: "\<forall>p\<in>set ps. wellFormed p" using Cons.prems by auto
  note IH = Cons.IH [OF rest]
  have qs: "pieceText q = CHR ''$'' # mark q # tail q" using q by (rule placeholder_shape)
  show ?case
  proof (cases "isPlaceholder p")
    case False
    then obtain t where p: "p = Text t" by (cases p) auto
    have t: "CHR ''$'' \<notin> set t" using wf p by simp
    have "p \<noteq> q" using p q(2) by auto
    then have "fill q repl p = p" by (simp add: fill_def)
    then show ?thesis
      by (simp only: render_Cons list.map qs p pieceText.simps replaceAll_skip_text [OF t]
            IH [unfolded qs])
  next
    case True
    have ps: "pieceText p = CHR ''$'' # mark p # tail p"
      and pd: "CHR ''$'' \<notin> set (mark p # tail p)"
      using wf True by (rule placeholder_shape)+
    show ?thesis
    proof (cases "p = q")
      case True
      then have "fill q repl p = Text repl" by (simp add: fill_def)
      then show ?thesis
        using True
        by (simp only: render_Cons list.map qs pieceText.simps replaceAll_hit [OF repl]
              IH [unfolded qs])
    next
      case False
      then have m: "mark q \<noteq> mark p" using mark_inj [OF q wf True] by auto
      have "fill q repl p = p" using False by (simp add: fill_def)
      then show ?thesis
        by (simp only: render_Cons list.map qs ps replaceAll_miss [OF m pd] IH [unfolded qs])
    qed
  qed
qed


text \<open>The ten replacements one after the other.\<close>

lemma fill_wellFormed:
  "CHR ''$'' \<notin> set repl \<Longrightarrow> wellFormed p \<Longrightarrow> wellFormed (fill q repl p)"
  by (simp add: fill_def)

lemma join_no_dollar:
  "\<forall>a\<in>set A. CHR ''$'' \<notin> set a \<Longrightarrow> CHR ''$'' \<notin> set (join '' '' A)"
  by (induction "'' ''" A rule: join.induct) auto

lemma positional_no_dollar:
  "\<forall>a\<in>set A. CHR ''$'' \<notin> set a \<Longrightarrow> CHR ''$'' \<notin> set (positional A i)"
  by (simp add: positional_def)

lemma passes_render:
  assumes A: "\<forall>a\<in>set A. CHR ''$'' \<notin> set a"
  shows "\<forall>p\<in>set ps. wellFormed p \<Longrightarrow> \<forall>i\<in>set is. 1 \<le> i \<and> i \<le> 9 \<Longrightarrow>
         foldl (\<lambda>result i. replaceAll (placeholder i) (positional A i) result) (render ps) is
           = render (map (\<lambda>p. foldl (\<lambda>p i. fill (Positional i) (positional A i) p) p is) ps)"
proof (induction "is" arbitrary: ps)
  case Nil
  show ?case by simp
next
  case (Cons i "is")
  have i: "wellFormed (Positional i)" "isPlaceholder (Positional i)"
    using Cons.prems(2) by simp_all
  have d: "CHR ''$'' \<notin> set (positional A i)" using A by (rule positional_no_dollar)
  have step: "replaceAll (placeholder i) (positional A i) (render ps)
                = render (map (fill (Positional i) (positional A i)) ps)"
    unfolding replaceAll_def
    using replaceAll_pass [OF i d Cons.prems(1), of "[]"] by simp
  have wf: "\<forall>p\<in>set (map (fill (Positional i) (positional A i)) ps). wellFormed p"
    using Cons.prems(1) d by (simp add: fill_wellFormed)
  have rest: "\<forall>i\<in>set is. 1 \<le> i \<and> i \<le> 9" using Cons.prems(2) by simp
  show ?case
    using Cons.IH [OF wf rest] by (simp add: step comp_def)
qed

lemma fold_fill_Text:
  "foldl (\<lambda>p i. fill (Positional i) (positional A i) p) (Text t) is = Text t"
  by (induction "is") (auto simp: fill_def)

lemma fold_fill_AllArguments:
  "foldl (\<lambda>p i. fill (Positional i) (positional A i) p) AllArguments is = AllArguments"
  by (induction "is") (auto simp: fill_def)

lemma fold_fill_Positional:
  "foldl (\<lambda>p i. fill (Positional i) (positional A i) p) (Positional j) is
     = (if j \<in> set is then Text (positional A j) else Positional j)"
proof (induction "is")
  case Nil
  show ?case by simp
next
  case (Cons i "is")
  have "fill (Positional i) (positional A i) (Positional j)
          = (if i = j then Text (positional A j) else Positional j)"
    by (auto simp: fill_def)
  then show ?case using Cons by (auto simp: fold_fill_Text)
qed

lemma piece_after_passes:
  assumes "wellFormed p"
  shows "pieceText (foldl (\<lambda>p i. fill (Positional i) (positional A i) p)
                      (fill AllArguments (join '' '' A) p) [1..<10])
           = substitute A p"
proof (cases p)
  case (Text t)
  then have "fill AllArguments (join '' '' A) p = Text t" by (simp add: fill_def)
  then show ?thesis using Text by (simp only: fold_fill_Text pieceText.simps substitute.simps)
next
  case AllArguments
  then have "fill AllArguments (join '' '' A) p = Text (join '' '' A)" by (simp add: fill_def)
  then show ?thesis
    using AllArguments by (simp only: fold_fill_Text pieceText.simps substitute.simps)
next
  case (Positional j)
  then have j: "j \<in> set [1..<10]" using assms by simp
  have "fill AllArguments (join '' '' A) p = Positional j" using Positional by (simp add: fill_def)
  then show ?thesis
    using Positional j
    by (simp only: fold_fill_Positional if_True pieceText.simps substitute.simps)
qed

lemma empty_piece: "wellFormed p \<Longrightarrow> pieceText p = [] \<Longrightarrow> substitute A p = []"
  by (cases p) (auto simp: placeholder_def)

lemma replaceArguments_pieces:
  assumes A: "\<forall>a\<in>set (toArgsArray given). CHR ''$'' \<notin> set a"
    and wf: "\<forall>p\<in>set ps. wellFormed p"
  shows "replaceArguments (render ps) given = substituteArguments ps (toArgsArray given)"
proof (cases "render ps = []")
  case True
  then have "\<forall>p\<in>set ps. pieceText p = []" by (simp add: render_def)
  then have "\<forall>p\<in>set ps. substitute (toArgsArray given) p = []"
    using wf empty_piece by blast
  then show ?thesis using True by (simp add: replaceArguments_def substituteArguments_def)
next
  case False
  let ?A = "toArgsArray given"
  have j: "CHR ''$'' \<notin> set (join '' '' ?A)" using A by (rule join_no_dollar)
  have q: "wellFormed AllArguments" "isPlaceholder AllArguments" by simp_all
  have first: "replaceAll ''$ARGUMENTS'' (join '' '' ?A) (render ps)
                 = render (map (fill AllArguments (join '' '' ?A)) ps)"
    unfolding replaceAll_def using replaceAll_pass [OF q j wf, of "[]"] by simp
  have wf1: "\<forall>p\<in>set (map (fill AllArguments (join '' '' ?A)) ps). wellFormed p"
    using wf j by (simp add: fill_wellFormed)
  have range: "\<forall>i\<in>set [1..<10]. 1 \<le> i \<and> i \<le> 9" by auto
  have "replaceArguments (render ps) given
          = foldl (\<lambda>result i. replaceAll (placeholder i) (positional ?A i) result)
              (render (map (fill AllArguments (join '' '' ?A)) ps)) [1..<10]"
    using False by (simp only: replaceArguments_def Let_def first if_False)
  also have "\<dots> = render (map (\<lambda>p. foldl (\<lambda>p i. fill (Positional i) (positional ?A i) p) p [1..<10])
                         (map (fill AllArguments (join '' '' ?A)) ps))"
    using A wf1 range by (rule passes_render)
  also have "\<dots> = concat (map (substitute ?A) ps)"
  proof -
    have "map (\<lambda>p. pieceText (foldl (\<lambda>p i. fill (Positional i) (positional ?A i) p)
                               (fill AllArguments (join '' '' ?A) p) [1..<10])) ps
            = map (substitute ?A) ps"
    proof (rule map_cong [OF refl])
      fix p assume "p \<in> set ps"
      then have "wellFormed p" using wf by blast
      then show "pieceText (foldl (\<lambda>p i. fill (Positional i) (positional ?A i) p)
                               (fill AllArguments (join '' '' ?A) p) [1..<10])
                   = substitute ?A p"
        by (rule piece_after_passes)
    qed
    then show ?thesis by (simp only: render_def map_map comp_def)
  qed
  finally show ?thesis by (simp only: substituteArguments_def)
qed

lemma render_nine: "render (map Positional [1..<10]) = ''$1$2$3$4$5$6$7$8$9''"
  by code_simp

text \<open>
  For every argument list (one string counts as a list of one) whose elements hold no
  dollar sign, and every body whose dollar signs all begin a placeholder,
  \<^verbatim>\<open>replaceArguments\<close> replaces every \<^verbatim>\<open>$ARGUMENTS\<close> by the arguments joined with spaces
  and every \<^verbatim>\<open>$1\<close> to \<^verbatim>\<open>$9\<close> by the argument of that position, or by the empty string
  where there is none; the body \<^verbatim>\<open>$1$2$3$4$5$6$7$8$9\<close> gives the first nine arguments,
  padded with empty strings.
\<close>

lemma replaceArguments_plain_arguments:
  assumes "\<forall>a\<in>set (toArgsArray given). CHR ''$'' \<notin> set a" "\<forall>p\<in>set ps. wellFormed p"
  shows "replaceArguments (render ps) given = substituteArguments ps (toArgsArray given)
       \<and> replaceArguments ''$1$2$3$4$5$6$7$8$9'' given
           = concat (map (positional (toArgsArray given)) [1..<10])"
proof -
  have nine: "\<forall>p\<in>set (map Positional [1..<10]). wellFormed p" by auto
  have "replaceArguments (render (map Positional [1..<10])) given
          = substituteArguments (map Positional [1..<10]) (toArgsArray given)"
    using assms(1) nine by (rule replaceArguments_pieces)
  then have "replaceArguments ''$1$2$3$4$5$6$7$8$9'' given
           = concat (map (positional (toArgsArray given)) [1..<10])"
    by (simp only: render_nine substituteArguments_def map_map comp_def substitute.simps)
  then show ?thesis using replaceArguments_pieces [OF assms] by simp
qed

lemma replaceArguments_plain_arguments_example:
  "list_all (\<lambda>a. CHR ''$'' \<notin> set a) (toArgsArray (ArgsArray [''world'']))
   \<and> list_all wellFormed [Text ''Hello '', Positional 1, Text '', see '', AllArguments]
   \<and> render [Text ''Hello '', Positional 1, Text '', see '', AllArguments]
        = ''Hello $1, see $ARGUMENTS''
   \<and> replaceArguments ''Hello $1, see $ARGUMENTS'' (ArgsArray [''world''])
        = ''Hello world, see world''
   \<and> replaceArguments ''$1$2$3$4$5$6$7$8$9'' (ArgsArray [''world'']) = ''world''"
proof -
  let ?ps = "[Text ''Hello '', Positional 1, Text '', see '', AllArguments]"
  have a: "\<forall>a\<in>set (toArgsArray (ArgsArray [''world''])). CHR ''$'' \<notin> set a" by simp
  have w: "\<forall>p\<in>set ?ps. wellFormed p" by simp
  have r: "render ?ps = ''Hello $1, see $ARGUMENTS''" by code_simp
  have s: "substituteArguments ?ps (toArgsArray (ArgsArray [''world''])) = ''Hello world, see world''"
    by code_simp
  have n: "concat (map (positional (toArgsArray (ArgsArray [''world'']))) [1..<10]) = ''world''"
    by code_simp
  note inst = replaceArguments_plain_arguments [OF a w]
  have c1: "replaceArguments ''Hello $1, see $ARGUMENTS'' (ArgsArray [''world''])
              = ''Hello world, see world''"
    using inst by (simp only: r s)
  have c2: "replaceArguments ''$1$2$3$4$5$6$7$8$9'' (ArgsArray [''world'']) = ''world''"
    using inst by (simp only: n)
  have a': "list_all (\<lambda>a. CHR ''$'' \<notin> set a) (toArgsArray (ArgsArray [''world'']))"
    using a by (simp only: list_all_iff)
  have w': "list_all wellFormed ?ps" using w by (simp only: list_all_iff)
  show ?thesis by (intro conjI a' w' r c1 c2)
qed

text \<open>
  Claim C5. The code departs from the claim for arguments that hold a dollar sign. The
  comment at line 60 says \<^verbatim>\<open>$ARGUMENTS\<close> is replaced by the arguments joined with spaces,
  but the arguments are handed to \<^verbatim>\<open>replace\<close> as replacement strings, in which a dollar
  sign is a pattern, and each of the ten replacements runs over the text the earlier ones
  left. With the argument \<^verbatim>\<open>$&\<close>, whether in a list or as one string, the body
  \<^verbatim>\<open>$ARGUMENTS\<close> comes back unchanged, where the joined arguments are \<^verbatim>\<open>$&\<close>; the
  argument \<^verbatim>\<open>$2\<close> given for \<^verbatim>\<open>$1\<close> is replaced again by the second argument; and the
  argument \<^verbatim>\<open>$$5\<close> becomes \<^verbatim>\<open>$5\<close>, which the fifth replacement then removes. An
  argument whose dollar sign begins no pattern is put in as it is.
\<close>

theorem replaceArguments_dollar_in_argument:
  "replaceArguments ''$ARGUMENTS'' (ArgsArray [''$&'']) = ''$ARGUMENTS''
   \<and> join '' '' (toArgsArray (ArgsArray [''$&''])) = ''$&''
   \<and> replaceArguments ''$ARGUMENTS'' (ArgsString ''$&'') = ''$ARGUMENTS''
   \<and> replaceArguments ''$1'' (ArgsArray [''$2'', ''b'']) = ''b''
   \<and> replaceArguments ''$1 costs $2'' (ArgsArray [''tea'', ''$$5'']) = ''tea costs ''
   \<and> replaceArguments ''pay $1 now'' (ArgsArray [''US$ x'']) = ''pay US$ x now''"
  by code_simp

end
